theory Spec2Isabelle
  imports Complex_Main "HOL-Library.Word" "HOL-Library.Sublist"
begin

section \<open>Bundle manager: the registry and \<open>resolveBundles\<close>\<close>

text \<open>
  \<open>BundleManager\<close> holds the manifests it has fetched. Each is \<open>null\<close> until loaded,
  hence an option. The JSON objects \<open>package-map\<close>, \<open>bundle-deps\<close> and
  \<open>package-deps\<close> are finite, so they are association lists over their own keys;
  the registry is the array behind the JavaScript \<open>Set\<close>.
\<close>

record BundleManager =
  bundleRegistry :: "string list option"
  packageMap :: "(string \<times> string) list option"
  bundleDeps :: "(string \<times> string list) list option"
  packageDeps :: "(string \<times> string list) list option"

text \<open>A JavaScript \<open>Set\<close> iterates in insertion order and ignores a second insertion.\<close>

definition set_add :: "'a \<Rightarrow> 'a list \<Rightarrow> 'a list" where
  "set_add x xs = (if x \<in> set xs then xs else xs @ [x])"

text \<open>\<open>this.bundleRegistry?.has(bundleName) ?? false\<close>\<close>

definition bundleExists :: "BundleManager \<Rightarrow> string \<Rightarrow> bool" where
  "bundleExists bm b = (case bundleRegistry bm of None \<Rightarrow> False | Some r \<Rightarrow> b \<in> set r)"

text \<open>\<open>this.packageMap?.[pkg]\<close>\<close>

definition packageMapOf :: "BundleManager \<Rightarrow> string \<Rightarrow> string option" where
  "packageMapOf bm pkg = (case packageMap bm of None \<Rightarrow> None | Some m \<Rightarrow> map_of m pkg)"

text \<open>\<open>this.bundleDeps?.[bundleName] || []\<close>\<close>

definition bundleDepsOf :: "BundleManager \<Rightarrow> string \<Rightarrow> string list" where
  "bundleDepsOf bm b =
     (case bundleDeps bm of None \<Rightarrow> []
      | Some m \<Rightarrow> (case map_of m b of None \<Rightarrow> [] | Some ds \<Rightarrow> ds))"

text \<open>\<open>this.packageDeps?.[pkg] || []\<close>\<close>

definition packageDepsOf :: "BundleManager \<Rightarrow> string \<Rightarrow> string list" where
  "packageDepsOf bm pkg =
     (case packageDeps bm of None \<Rightarrow> []
      | Some m \<Rightarrow> (case map_of m pkg of None \<Rightarrow> [] | Some ds \<Rightarrow> ds))"

text \<open>
  The first half of the body of the closure \<open>resolvePackage\<close>: the bundle of the package,
  when the map names one (a non-empty string) that the registry has, and those of that
  bundle's dependencies that the registry has.
\<close>

definition addPackageBundles :: "BundleManager \<Rightarrow> string \<Rightarrow> string list \<Rightarrow> string list" where
  "addPackageBundles bm pkg bundles =
     (case packageMapOf bm pkg of
        None \<Rightarrow> bundles
      | Some bundleName \<Rightarrow>
          if bundleName \<noteq> [] \<and> bundleExists bm bundleName
          then fold (\<lambda>dep bs. if bundleExists bm dep then set_add dep bs else bs)
                 (bundleDepsOf bm bundleName) (set_add bundleName bundles)
          else bundles)"

text \<open>Every name that occurs as a dependency in \<open>package-deps\<close>.\<close>

definition depNames :: "BundleManager \<Rightarrow> string set" where
  "depNames bm = (case packageDeps bm of None \<Rightarrow> {} | Some m \<Rightarrow> \<Union> (set (map (set \<circ> snd) m)))"

text \<open>
  \<open>resolvePackage\<close> calls itself for each dependency, in order, and shares the sets
  \<open>resolved\<close> and \<open>bundles\<close> among all calls. The model runs the same depth-first visit
  with the pending calls on an explicit stack: the head of the stack is the call being made,
  its dependencies are pushed in front of the calls that remain. The state is the pair
  \<open>(resolved, bundles)\<close>. The loop \<open>for (const pkg of packages) resolvePackage(pkg)\<close> is
  the run from the stack \<open>packages\<close>.
\<close>

function resolvePackage :: "BundleManager \<Rightarrow> string list \<Rightarrow> string list \<times> string list
    \<Rightarrow> string list \<times> string list" where
  "resolvePackage bm [] st = st"
| "resolvePackage bm (pkg # rest) (resolved, bundles) =
     (if pkg \<in> set resolved then resolvePackage bm rest (resolved, bundles)
      else resolvePackage bm (packageDepsOf bm pkg @ rest)
             (set_add pkg resolved, addPackageBundles bm pkg bundles))"
  by pat_completeness auto

lemma packageDepsOf_depNames: "set (packageDepsOf bm pkg) \<subseteq> depNames bm"
proof
  fix d assume d: "d \<in> set (packageDepsOf bm pkg)"
  then obtain m where m: "packageDeps bm = Some m"
    by (cases "packageDeps bm") (auto simp: packageDepsOf_def)
  from d m obtain ds where ds: "map_of m pkg = Some ds" and dd: "d \<in> set ds"
    by (cases "map_of m pkg") (auto simp: packageDepsOf_def)
  from ds have "(pkg, ds) \<in> set m" by (rule map_of_SomeD)
  with dd m show "d \<in> depNames bm"
    by (force simp: depNames_def)
qed

lemma finite_depNames: "finite (depNames bm)"
  by (auto simp: depNames_def split: option.splits)

lemma resolve_measure_decreases:
  assumes "pkg \<notin> set resolved"
  shows "card ((depNames bm \<union> set (packageDepsOf bm pkg @ rest)) - set (set_add pkg resolved))
         < card ((depNames bm \<union> set (pkg # rest)) - set resolved)"
proof -
  let ?new = "(depNames bm \<union> set (packageDepsOf bm pkg @ rest)) - set (set_add pkg resolved)"
  let ?old = "(depNames bm \<union> set (pkg # rest)) - set resolved"
  have fin: "finite ?old" by (simp add: finite_depNames)
  have sub: "?new \<subseteq> ?old - {pkg}"
    using packageDepsOf_depNames [of bm pkg] by (auto simp: set_add_def)
  have mem: "pkg \<in> ?old" using assms by simp
  have "card ?new \<le> card (?old - {pkg})"
    using fin sub by (intro card_mono) auto
  also have "\<dots> < card ?old"
    using fin mem by (intro card_Diff1_less) auto
  finally show ?thesis .
qed

termination resolvePackage
  apply (relation "measures [\<lambda>(bm, stack, resolved, bundles). card ((depNames bm \<union> set stack) - set resolved),
                          \<lambda>(bm, stack, resolved, bundles). length stack]")
    apply simp
   apply (simp add: insert_absorb)
  subgoal for bm pkg rest resolved bundles
    using resolve_measure_decreases [of pkg resolved bm rest] by simp
  done

definition core_bundles :: "string list" where
  "core_bundles = [''core'', ''latex-base'', ''l3'', ''graphics'', ''tools'']"

text \<open>The engine-specific bundles: two branches, for \<open>pdflatex\<close> and for \<open>xelatex\<close>.\<close>

definition engine_bundles :: "string \<Rightarrow> string list" where
  "engine_bundles engine =
     (if engine = ''pdflatex'' then [''fmt-pdflatex'', ''fonts-cm'', ''amsfonts'']
      else if engine = ''xelatex'' then [''fmt-xelatex'', ''fontspec'', ''unicode-math'']
      else [])"

definition resolveBundles :: "BundleManager \<Rightarrow> string list \<Rightarrow> string \<Rightarrow> string list" where
  "resolveBundles bm packages engine =
     (let bundles0 = fold set_add (core_bundles @ engine_bundles engine) [];
          (resolved, bundles) = resolvePackage bm packages ([], bundles0)
      in filter (bundleExists bm) bundles)"


text \<open>Two managers with a loaded registry: one that lists every bundle that
  \<open>resolveBundles\<close> names, one that lacks \<open>tools\<close> and the bundles of the other engines.\<close>

definition bm_full :: BundleManager where
  "bm_full = \<lparr> bundleRegistry = Some [''core'', ''latex-base'', ''l3'', ''graphics'', ''tools'',
        ''fmt-pdflatex'', ''fonts-cm'', ''amsfonts'', ''fmt-xelatex'', ''fmt-lualatex'',
        ''fontspec'', ''unicode-math''],
      packageMap = Some [], bundleDeps = Some [], packageDeps = None \<rparr>"

definition bm_no_tools :: BundleManager where
  "bm_no_tools = \<lparr> bundleRegistry = Some [''core'', ''latex-base'', ''l3'', ''graphics'',
        ''fmt-pdflatex'', ''fonts-cm'', ''amsfonts''],
      packageMap = Some [], bundleDeps = Some [], packageDeps = None \<rparr>"

text \<open>A manager before \<open>loadManifest\<close> has run.\<close>

definition bm_unloaded :: BundleManager where
  "bm_unloaded = \<lparr> bundleRegistry = None, packageMap = None, bundleDeps = None, packageDeps = None \<rparr>"

subsection \<open>Properties of \<open>resolveBundles\<close>\<close>

lemma set_set_add [simp]: "set (set_add x xs) = insert x (set xs)"
  by (auto simp: set_add_def)

lemma fold_set_add: "set (fold set_add xs acc) = set xs \<union> set acc"
  by (induction xs arbitrary: acc) auto

lemma fold_dep_mono:
  "set acc \<subseteq> set (fold (\<lambda>dep bs. if P dep then set_add dep bs else bs) ds acc)"
proof (induction ds arbitrary: acc)
  case Nil
  show ?case by simp
next
  case (Cons d ds)
  have "set acc \<subseteq> set (if P d then set_add d acc else acc)" by auto
  also have "\<dots> \<subseteq> set (fold (\<lambda>dep bs. if P dep then set_add dep bs else bs) ds
                        (if P d then set_add d acc else acc))"
    by (rule Cons.IH)
  finally show ?case by simp
qed

lemma addPackageBundles_mono: "set bundles \<subseteq> set (addPackageBundles bm pkg bundles)"
proof (cases "packageMapOf bm pkg")
  case None
  then show ?thesis by (simp add: addPackageBundles_def)
next
  case (Some bundleName)
  have "set bundles \<subseteq> set (set_add bundleName bundles)" by auto
  also note fold_dep_mono [of "set_add bundleName bundles" "bundleExists bm" "bundleDepsOf bm bundleName"]
  finally show ?thesis using Some by (simp add: addPackageBundles_def)
qed

lemma resolvePackage_bundles_mono:
  "set bundles \<subseteq> set (snd (resolvePackage bm stack (resolved, bundles)))"
proof (induction bm stack "(resolved, bundles)" arbitrary: resolved bundles rule: resolvePackage.induct)
  case (1 bm)
  show ?case by simp
next
  case (2 bm pkg rest resolved bundles)
  show ?case
  proof (cases "pkg \<in> set resolved")
    case True
    with 2 show ?thesis by simp
  next
    case False
    have "set bundles \<subseteq> set (addPackageBundles bm pkg bundles)"
      by (rule addPackageBundles_mono)
    also have "\<dots> \<subseteq> set (snd (resolvePackage bm (packageDepsOf bm pkg @ rest)
                  (set_add pkg resolved, addPackageBundles bm pkg bundles)))"
      using False by (intro 2) auto
    finally show ?thesis using False by simp
  qed
qed

lemma resolveBundles_set:
  "set (resolveBundles bm packages engine) =
     {b \<in> set (snd (resolvePackage bm packages
                      ([], fold set_add (core_bundles @ engine_bundles engine) []))). bundleExists bm b}"
  by (simp add: resolveBundles_def Let_def case_prod_beta)

text \<open>On a registry that has every bundle, the two engines with a branch get their three
  bundles after the core.\<close>

lemma resolveBundles_engine_branches:
  "resolveBundles bm_full [] ''pdflatex'' =
     [''core'', ''latex-base'', ''l3'', ''graphics'', ''tools'', ''fmt-pdflatex'', ''fonts-cm'', ''amsfonts'']"
  "resolveBundles bm_full [] ''xelatex'' =
     [''core'', ''latex-base'', ''l3'', ''graphics'', ''tools'', ''fmt-xelatex'', ''fontspec'',
      ''unicode-math'']"
  by (simp_all add: resolveBundles_def bm_full_def core_bundles_def engine_bundles_def
      set_add_def bundleExists_def)

text \<open>
  C1. With \<open>lualatex\<close> no engine bundle is added: on a registry that has every bundle,
  the result for \<open>lualatex\<close> is the five core bundles, without \<open>fmt-lualatex\<close>,
  \<open>fontspec\<close> and \<open>unicode-math\<close>.
\<close>

theorem resolveBundles_lualatex_no_engine_bundles:
  "resolveBundles bm_full [] ''lualatex'' = [''core'', ''latex-base'', ''l3'', ''graphics'', ''tools'']"
  by (simp add: resolveBundles_def bm_full_def core_bundles_def engine_bundles_def
      set_add_def bundleExists_def)




section \<open>CTAN fetcher: \<open>loadPackageFromCache\<close> and \<open>fetchPackage\<close>\<close>

type_synonym bytes = "8 word list"

text \<open>
  The record that \<open>savePackageMeta\<close> stores for a package. A field that the stored object
  may lack is an option; \<open>notFound\<close> is read for its truth value only.
\<close>

record PackageMeta =
  meta_name :: "string option"
  meta_files :: "string list option"
  meta_dependencies :: "string list option"
  meta_cacheVersion :: nat
  meta_notFound :: bool

text \<open>What the proxy answers. The truth value of \<open>data.error\<close> decides, so the field keeps
  its JSON value.\<close>

datatype jsval = JNull | JBool bool | JNum int | JStr string | JObj

fun truthy :: "jsval \<Rightarrow> bool" where
  "truthy JNull = False"
| "truthy (JBool b) = b"
| "truthy (JNum n) = (n \<noteq> 0)"
| "truthy (JStr s) = (s \<noteq> [])"
| "truthy JObj = True"

datatype content = CStr string | CRaw bytes

record file_info =
  fi_content :: content
  fi_encoding :: "string option"

record api_data =
  api_error :: "jsval option"
  api_files :: "(string \<times> file_info) list option"
  api_dependencies :: "string list option"

text \<open>
  \<open>BadJson\<close> is a body on which \<open>response.json()\<close> or the read of \<open>data.error\<close> throws
  (not JSON, or the JSON value \<open>null\<close>). \<open>TransportError\<close> is \<open>fetch\<close> itself rejecting.
\<close>

datatype body = BadJson | JsonData api_data

datatype response = TransportError | Response nat body

text \<open>\<open>response.ok\<close>: the status is in the range 200 to 299.\<close>

definition response_ok :: "nat \<Rightarrow> bool" where
  "response_ok status = (200 \<le> status \<and> status \<le> 299)"

datatype fetch_log =
    LogMarkedNotFound string
  | LogLoadedFromCache string
  | LogFetching string
  | LogFetchError

text \<open>
  Modelled from the spec: \<open>storage.js\<close> is not among the sources. Its record store
  (\<open>getPackageMeta\<close>, \<open>savePackageMeta\<close>) and its blob store (\<open>readFromOPFS\<close>,
  \<open>writeToOPFS\<close>) are the two maps \<open>metaStore\<close> and \<open>opfs\<close>, whose operations
  succeed; the constant \<open>CTAN_CACHE_VERSION\<close> is the parameter \<open>cv\<close> of the functions below.
  The other fields are those of \<open>CTANFetcher\<close>, and \<open>requests\<close> lists the URLs
  handed to \<open>fetch\<close>.
\<close>

record Fetcher =
  proxyUrl :: string
  mountedFiles :: "string list"
  fetchCount :: nat
  fetcherLog :: "fetch_log list"
  metaStore :: "string \<rightharpoonup> PackageMeta"
  opfs :: "string \<rightharpoonup> bytes"
  requests :: "string list"

definition onLog :: "fetch_log \<Rightarrow> Fetcher \<Rightarrow> Fetcher" where
  "onLog e s = s\<lparr>fetcherLog := fetcherLog s @ [e]\<rparr>"

definition savePackageMeta :: "string \<Rightarrow> PackageMeta \<Rightarrow> Fetcher \<Rightarrow> Fetcher" where
  "savePackageMeta name m s = s\<lparr>metaStore := (metaStore s)(name \<mapsto> m)\<rparr>"

definition writeToOPFS :: "string \<Rightarrow> bytes \<Rightarrow> Fetcher \<Rightarrow> Fetcher" where
  "writeToOPFS path c s = s\<lparr>opfs := (opfs s)(path \<mapsto> c)\<rparr>"

text \<open>\<open>Map.set\<close>: a key keeps the place of its first insertion.\<close>

fun map_set :: "'k \<Rightarrow> 'v \<Rightarrow> ('k \<times> 'v) list \<Rightarrow> ('k \<times> 'v) list" where
  "map_set k v [] = [(k, v)]"
| "map_set k v ((k', v') # m) = (if k = k' then (k, v) # m else (k', v') # map_set k v m)"

datatype cache_result =
    CacheNull
  | CacheNotFound
  | CacheHit "(string \<times> bytes) list" "string list"

definition loadPackageFromCache :: "nat \<Rightarrow> Fetcher \<Rightarrow> string \<Rightarrow> cache_result \<times> Fetcher" where
  "loadPackageFromCache cv s packageName =
     (case metaStore s packageName of
        None \<Rightarrow> (CacheNull, s)
      | Some meta \<Rightarrow>
          if meta_cacheVersion meta \<noteq> cv then (CacheNull, s)
          else if meta_notFound meta then (CacheNotFound, s)
          else
            let paths = (case meta_files meta of None \<Rightarrow> [] | Some fs \<Rightarrow> fs);
                found = filter (\<lambda>p. opfs s p \<noteq> None) paths;
                files = fold (\<lambda>p m. map_set p (the (opfs s p)) m) found [];
                deps = (case meta_dependencies meta of None \<Rightarrow> [] | Some ds \<Rightarrow> ds)
            in (CacheHit files deps, s\<lparr>mountedFiles := fold set_add found (mountedFiles s)\<rparr>))"

text \<open>
  The decoders of the platform: \<open>atob\<close> (\<open>None\<close> when it throws on a string that is not
  base64), \<open>TextEncoder.encode\<close>, and the string that \<open>atob\<close> makes of an argument
  that is not a string.
\<close>

record Platform =
  atob :: "string \<Rightarrow> string option"
  utf8_encode :: "string \<Rightarrow> bytes"
  raw_string :: "bytes \<Rightarrow> string"

definition decodeContent :: "Platform \<Rightarrow> file_info \<Rightarrow> bytes option" where
  "decodeContent env info =
     (if fi_encoding info = Some ''base64'' then
        (case atob env (case fi_content info of CStr t \<Rightarrow> t | CRaw b \<Rightarrow> raw_string env b) of
           None \<Rightarrow> None
         | Some binary \<Rightarrow> Some (map of_char binary))
      else (case fi_content info of
              CStr t \<Rightarrow> Some (utf8_encode env t)
            | CRaw b \<Rightarrow> Some b))"

text \<open>
  The loop over \<open>Object.entries(data.files)\<close>. \<open>Inl\<close> is the state at which \<open>atob\<close>
  threw: what was written before stays written.
\<close>

fun processFiles :: "Platform \<Rightarrow> (string \<times> file_info) list \<Rightarrow> (string \<times> bytes) list \<Rightarrow> Fetcher
    \<Rightarrow> Fetcher + (string \<times> bytes) list \<times> Fetcher" where
  "processFiles env [] files s = Inr (files, s)"
| "processFiles env ((path, info) # rest) files s =
     (case decodeContent env info of
        None \<Rightarrow> Inl s
      | Some c \<Rightarrow>
          processFiles env rest (map_set path c files)
            (writeToOPFS path c (s\<lparr>mountedFiles := set_add path (mountedFiles s)\<rparr>)))"

definition notFoundMeta :: "nat \<Rightarrow> PackageMeta" where
  "notFoundMeta cv = \<lparr> meta_name = None, meta_files = None, meta_dependencies = None,
     meta_cacheVersion = cv, meta_notFound = True \<rparr>"

definition fetchUrl :: "Fetcher \<Rightarrow> string \<Rightarrow> string" where
  "fetchUrl s packageName = proxyUrl s @ ''/api/fetch/'' @ packageName"

text \<open>
  \<open>fetchPackage\<close>. The network is the function \<open>net\<close> from the URL to the answer.
  The result \<open>None\<close> is \<open>null\<close>; \<open>Some (files, dependencies)\<close> is the package.
\<close>

definition fetchPackage :: "Platform \<Rightarrow> nat \<Rightarrow> (string \<Rightarrow> response) \<Rightarrow> Fetcher \<Rightarrow> string
    \<Rightarrow> ((string \<times> bytes) list \<times> string list) option \<times> Fetcher" where
  "fetchPackage env cv net s0 packageName =
     (case loadPackageFromCache cv s0 packageName of
        (CacheNotFound, s) \<Rightarrow> (None, onLog (LogMarkedNotFound packageName) s)
      | (CacheHit files deps, s) \<Rightarrow> (Some (files, deps), onLog (LogLoadedFromCache packageName) s)
      | (CacheNull, s) \<Rightarrow>
          let s1 = onLog (LogFetching packageName) s;
              url = fetchUrl s1 packageName;
              s2 = s1\<lparr>requests := requests s1 @ [url]\<rparr>
          in (case net url of
                TransportError \<Rightarrow> (None, onLog LogFetchError s2)
              | Response status b \<Rightarrow>
                  if \<not> response_ok status
                  then (None, savePackageMeta packageName (notFoundMeta cv) s2)
                  else (case b of
                          BadJson \<Rightarrow> (None, onLog LogFetchError s2)
                        | JsonData d \<Rightarrow>
                            if (case api_error d of None \<Rightarrow> False | Some e \<Rightarrow> truthy e)
                            then (None, savePackageMeta packageName (notFoundMeta cv) s2)
                            else (case api_files d of
                                    None \<Rightarrow> (None, onLog LogFetchError s2)
                                  | Some entries \<Rightarrow>
                                      (case processFiles env entries [] s2 of
                                         Inl s3 \<Rightarrow> (None, onLog LogFetchError s3)
                                       | Inr (files, s3) \<Rightarrow>
                                           let deps = (case api_dependencies d of
                                                         None \<Rightarrow> [] | Some ds \<Rightarrow> ds);
                                               s4 = savePackageMeta packageName
                                                      \<lparr> meta_name = Some packageName,
                                                        meta_files = Some (map fst files),
                                                        meta_dependencies = Some deps,
                                                        meta_cacheVersion = cv,
                                                        meta_notFound = False \<rparr> s3
                                           in (Some (files, deps),
                                               s4\<lparr>fetchCount := fetchCount s4 + 1\<rparr>))))))"


subsection \<open>Properties of \<open>fetchPackage\<close>\<close>

text \<open>The answers on which \<open>fetchPackage\<close> stores a \<open>notFound\<close> record: a status
  that is not ok, or an ok status with a JSON body whose \<open>error\<close> field is truthy.\<close>

definition negative_response :: "response \<Rightarrow> bool" where
  "negative_response r =
     (case r of
        TransportError \<Rightarrow> False
      | Response status b \<Rightarrow>
          \<not> response_ok status \<or>
          (case b of BadJson \<Rightarrow> False
           | JsonData d \<Rightarrow> (case api_error d of None \<Rightarrow> False | Some e \<Rightarrow> truthy e)))"

text \<open>The answers that the specification names: status 404, or a JSON body that has an
  \<open>error\<close> field.\<close>

definition spec_negative_response :: "response \<Rightarrow> bool" where
  "spec_negative_response r =
     (case r of
        TransportError \<Rightarrow> False
      | Response status b \<Rightarrow>
          status = 404 \<or> (case b of BadJson \<Rightarrow> False | JsonData d \<Rightarrow> api_error d \<noteq> None))"

definition fetcher0 :: Fetcher where
  "fetcher0 = \<lparr> proxyUrl = ''http://localhost:8081'', mountedFiles = [], fetchCount = 0,
     fetcherLog = [], metaStore = Map.empty, opfs = Map.empty, requests = [] \<rparr>"

definition platform0 :: Platform where
  "platform0 = \<lparr> atob = (\<lambda>t. None), utf8_encode = map of_char, raw_string = (\<lambda>b. []) \<rparr>"

lemma processFiles_metaStore_Inl:
  "processFiles env entries files s = Inl s' \<Longrightarrow> metaStore s' = metaStore s"
  by (induction env entries files s rule: processFiles.induct)
     (auto simp: writeToOPFS_def split: option.splits)

lemma processFiles_metaStore_Inr:
  "processFiles env entries files s = Inr (fs, s') \<Longrightarrow> metaStore s' = metaStore s"
  by (induction env entries files s rule: processFiles.induct)
     (auto simp: writeToOPFS_def split: option.splits)

lemma processFiles_requests_Inl:
  "processFiles env entries files s = Inl s' \<Longrightarrow> requests s' = requests s"
  by (induction env entries files s rule: processFiles.induct)
     (auto simp: writeToOPFS_def split: option.splits)

lemma processFiles_requests_Inr:
  "processFiles env entries files s = Inr (fs, s') \<Longrightarrow> requests s' = requests s"
  by (induction env entries files s rule: processFiles.induct)
     (auto simp: writeToOPFS_def split: option.splits)

lemma processFiles_result_indep:
  "(case processFiles env entries files s of Inl _ \<Rightarrow> None | Inr (fs, _) \<Rightarrow> Some fs) =
   (case processFiles env entries files t of Inl _ \<Rightarrow> None | Inr (fs, _) \<Rightarrow> Some fs)"
proof (induction env entries files s arbitrary: t rule: processFiles.induct)
  case (1 env files s)
  show ?case by simp
next
  case (2 env path info rest files s)
  show ?case
  proof (cases "decodeContent env info")
    case None
    then show ?thesis by simp
  next
    case (Some c)
    with "2.IH" [of c "writeToOPFS path c (t\<lparr>mountedFiles := set_add path (mountedFiles t)\<rparr>)"]
    show ?thesis by simp
  qed
qed

lemma cache_miss_iff:
  "fst (loadPackageFromCache cv s name) = CacheNull \<longleftrightarrow>
     (case metaStore s name of None \<Rightarrow> True | Some m \<Rightarrow> meta_cacheVersion m \<noteq> cv)"
  by (auto simp: loadPackageFromCache_def Let_def split: option.splits)

lemma cache_miss_state:
  "fst (loadPackageFromCache cv s name) = CacheNull \<Longrightarrow> loadPackageFromCache cv s name = (CacheNull, s)"
  by (auto simp: loadPackageFromCache_def Let_def split: option.splits if_splits)


lemma onLog_fields [simp]:
  "proxyUrl (onLog e s) = proxyUrl s"
  "metaStore (onLog e s) = metaStore s"
  "requests (onLog e s) = requests s"
  "opfs (onLog e s) = opfs s"
  by (simp_all add: onLog_def)

lemma savePackageMeta_fields [simp]:
  "metaStore (savePackageMeta name m s) = (metaStore s)(name \<mapsto> m)"
  "requests (savePackageMeta name m s) = requests s"
  by (simp_all add: savePackageMeta_def)

lemma fetchUrl_onLog [simp]: "fetchUrl (onLog e s) name = fetchUrl s name"
  by (simp add: fetchUrl_def)

text \<open>
  C5, as stated, fails: a status other than 404 that is not ok stores the \<open>notFound\<close>
  record as well. Here the proxy answers 500 with a body that is not JSON.
\<close>

theorem fetchPackage_negative_counterexample:
  "fst (fetchPackage platform0 1 (\<lambda>url. Response 500 BadJson) fetcher0 ''nopkg'') = None \<and>
   metaStore (snd (fetchPackage platform0 1 (\<lambda>url. Response 500 BadJson) fetcher0 ''nopkg'')) ''nopkg''
     = Some (notFoundMeta 1) \<and>
   \<not> spec_negative_response (Response 500 BadJson)"
  by (simp add: fetchPackage_def loadPackageFromCache_def fetcher0_def onLog_def Let_def
      response_ok_def savePackageMeta_def spec_negative_response_def)

text \<open>
  C5, amended: when the cache has no record of the current version for the package,
  \<open>fetchPackage\<close> stores a record with \<open>notFound\<close> set, tagged with the current
  cache version, exactly when the answer has a status that is not ok (outside 200 to 299,
  so 404 among others) or is ok with a JSON body whose \<open>error\<close> field is truthy, and it
  then returns \<open>null\<close>; when \<open>fetch\<close> itself rejects, \<open>fetchPackage\<close> returns \<open>null\<close> and
  leaves the record store as it was.
\<close>

theorem fetchPackage_negative_iff:
  assumes miss: "fst (loadPackageFromCache cv s name) = CacheNull"
  shows "((\<exists>m. metaStore (snd (fetchPackage env cv net s name)) name = Some m \<and>
               meta_notFound m \<and> meta_cacheVersion m = cv)
            \<longleftrightarrow> negative_response (net (fetchUrl s name))) \<and>
         (negative_response (net (fetchUrl s name)) \<longrightarrow>
            fst (fetchPackage env cv net s name) = None \<and>
            metaStore (snd (fetchPackage env cv net s name)) name = Some (notFoundMeta cv)) \<and>
         (net (fetchUrl s name) = TransportError \<longrightarrow>
            fst (fetchPackage env cv net s name) = None \<and>
            metaStore (snd (fetchPackage env cv net s name)) = metaStore s)"
proof -
  have load: "loadPackageFromCache cv s name = (CacheNull, s)"
    using miss by (rule cache_miss_state)
  have old: "\<not> (\<exists>m. metaStore s name = Some m \<and> meta_notFound m \<and> meta_cacheVersion m = cv)"
    using miss by (auto simp: cache_miss_iff)
  let ?s2 = "(onLog (LogFetching name) s)\<lparr>requests := requests (onLog (LogFetching name) s) @ [fetchUrl s name]\<rparr>"
  have s2: "metaStore ?s2 = metaStore s" by simp
  show ?thesis
  proof (cases "net (fetchUrl s name)")
    case TransportError
    then show ?thesis
      using load old by (simp add: fetchPackage_def Let_def negative_response_def)
  next
    case (Response status b)
    show ?thesis
    proof (cases "response_ok status")
      case False
      with Response load show ?thesis
        by (simp add: fetchPackage_def Let_def negative_response_def
            notFoundMeta_def)
    next
      case ok: True
      show ?thesis
      proof (cases b)
        case BadJson
        with Response ok load old show ?thesis
          by (simp add: fetchPackage_def Let_def negative_response_def)
      next
        case (JsonData d)
        show ?thesis
        proof (cases "case api_error d of None \<Rightarrow> False | Some e \<Rightarrow> truthy e")
          case True
          with Response ok load JsonData show ?thesis
            by (simp add: fetchPackage_def Let_def negative_response_def
                notFoundMeta_def)
        next
          case noerr: False
          show ?thesis
          proof (cases "api_files d")
            case None
            with Response ok load old JsonData noerr show ?thesis
              by (simp add: fetchPackage_def Let_def negative_response_def)
          next
            case (Some entries)
            show ?thesis
            proof (cases "processFiles env entries [] ?s2")
              case (Inl s3)
              then have "metaStore s3 = metaStore s"
                using processFiles_metaStore_Inl [OF Inl] s2 by simp
              with Response ok load old JsonData noerr Some Inl show ?thesis
                by (simp add: fetchPackage_def Let_def negative_response_def)
            next
              case (Inr p)
              obtain files s3 where p: "p = (files, s3)" by (cases p)
              with Response ok load JsonData noerr Some Inr show ?thesis
                by (simp add: fetchPackage_def Let_def negative_response_def)
            qed
          qed
        qed
      qed
    qed
  qed
qed


theorem fetchPackage_negative_iff_witness:
  "fst (loadPackageFromCache 1 fetcher0 ''nopkg'') = CacheNull \<and>
   negative_response (Response 404 BadJson) \<and>
   fst (fetchPackage platform0 1 (\<lambda>url. Response 404 BadJson) fetcher0 ''nopkg'') = None \<and>
   metaStore (snd (fetchPackage platform0 1 (\<lambda>url. Response 404 BadJson) fetcher0 ''nopkg'')) ''nopkg''
     = Some (notFoundMeta 1) \<and>
   fst (fetchPackage platform0 1 (\<lambda>url. TransportError) fetcher0 ''nopkg'') = None \<and>
   metaStore (snd (fetchPackage platform0 1 (\<lambda>url. TransportError) fetcher0 ''nopkg''))
     = metaStore fetcher0"
proof -
  have miss: "fst (loadPackageFromCache 1 fetcher0 ''nopkg'') = CacheNull"
    by (simp add: loadPackageFromCache_def fetcher0_def)
  have neg: "negative_response (Response 404 BadJson)"
    by (simp add: negative_response_def response_ok_def)
  from fetchPackage_negative_iff [OF miss, of platform0 "\<lambda>url. Response 404 BadJson"]
       fetchPackage_negative_iff [OF miss, of platform0 "\<lambda>url. TransportError"]
       miss neg
  show ?thesis by simp
qed

text \<open>
  C6. \<open>fetchPackage\<close> reads the stored record first. A record of the current cache
  version with \<open>notFound\<close> set makes it return \<open>null\<close> without a request to the network. A
  record of another cache version counts as absent: the call returns what it returns when
  the store has no record for the package, and it sends the one request to the proxy.
\<close>

theorem fetchPackage_cache_first:
  "(metaStore s name = Some m \<and> meta_cacheVersion m = cv \<and> meta_notFound m \<longrightarrow>
      fst (fetchPackage env cv net s name) = None \<and>
      requests (snd (fetchPackage env cv net s name)) = requests s) \<and>
   (metaStore s name = Some m \<and> meta_cacheVersion m \<noteq> cv \<longrightarrow>
      fst (loadPackageFromCache cv s name) = CacheNull \<and>
      fst (fetchPackage env cv net s name)
        = fst (fetchPackage env cv net (s\<lparr>metaStore := (metaStore s)(name := None)\<rparr>) name) \<and>
      requests (snd (fetchPackage env cv net s name)) = requests s @ [fetchUrl s name])"
proof (intro conjI impI)
  assume h: "metaStore s name = Some m \<and> meta_cacheVersion m = cv \<and> meta_notFound m"
  then have "loadPackageFromCache cv s name = (CacheNotFound, s)"
    by (simp add: loadPackageFromCache_def)
  then show "fst (fetchPackage env cv net s name) = None"
    and "requests (snd (fetchPackage env cv net s name)) = requests s"
    by (simp_all add: fetchPackage_def)
next
  assume h: "metaStore s name = Some m \<and> meta_cacheVersion m \<noteq> cv"
  let ?a = "s\<lparr>metaStore := (metaStore s)(name := None)\<rparr>"
  let ?s2 = "(onLog (LogFetching name) s)\<lparr>requests := requests s @ [fetchUrl s name]\<rparr>"
  let ?a2 = "(onLog (LogFetching name) ?a)\<lparr>requests := requests s @ [fetchUrl s name]\<rparr>"
  from h have load: "loadPackageFromCache cv s name = (CacheNull, s)"
    by (simp add: loadPackageFromCache_def)
  have loada: "loadPackageFromCache cv ?a name = (CacheNull, ?a)"
    by (simp add: loadPackageFromCache_def)
  show "fst (loadPackageFromCache cv s name) = CacheNull"
    using load by simp
  have url: "fetchUrl ?a name = fetchUrl s name"
    by (simp add: fetchUrl_def)
  show "requests (snd (fetchPackage env cv net s name)) = requests s @ [fetchUrl s name]"
    using load
    by (auto simp: fetchPackage_def Let_def
        split: response.splits body.splits option.splits sum.splits
        dest: processFiles_requests_Inl processFiles_requests_Inr)
  show "fst (fetchPackage env cv net s name) = fst (fetchPackage env cv net ?a name)"
  proof (cases "net (fetchUrl s name)")
    case TransportError
    with load loada url show ?thesis
      by (simp add: fetchPackage_def Let_def)
  next
    case (Response status b)
    show ?thesis
    proof (cases "\<exists>d entries. response_ok status \<and> b = JsonData d \<and>
                    \<not> (case api_error d of None \<Rightarrow> False | Some e \<Rightarrow> truthy e) \<and>
                    api_files d = Some entries")
      case False
      with Response load loada url show ?thesis
        by (auto simp: fetchPackage_def Let_def split: body.splits option.splits)
    next
      case True
      then obtain d entries where ok: "response_ok status" and b: "b = JsonData d"
        and noerr: "\<not> (case api_error d of None \<Rightarrow> False | Some e \<Rightarrow> truthy e)"
        and files: "api_files d = Some entries"
        by blast
      have s2: "(onLog (LogFetching name) s)\<lparr>requests := requests (onLog (LogFetching name) s) @
                  [fetchUrl (onLog (LogFetching name) s) name]\<rparr> = ?s2"
        by simp
      have a2: "(onLog (LogFetching name) ?a)\<lparr>requests := requests (onLog (LogFetching name) ?a) @
                  [fetchUrl (onLog (LogFetching name) ?a) name]\<rparr> = ?a2"
        using url by simp
      have fs: "fst (fetchPackage env cv net s name) =
                  (case processFiles env entries [] ?s2 of
                     Inl _ \<Rightarrow> None
                   | Inr (fs, _) \<Rightarrow>
                       Some (fs, case api_dependencies d of None \<Rightarrow> [] | Some ds \<Rightarrow> ds))"
        using Response load ok b noerr files
        by (simp add: fetchPackage_def Let_def s2 split: sum.splits prod.splits)
      have fa: "fst (fetchPackage env cv net ?a name) =
                  (case processFiles env entries [] ?a2 of
                     Inl _ \<Rightarrow> None
                   | Inr (fs, _) \<Rightarrow>
                       Some (fs, case api_dependencies d of None \<Rightarrow> [] | Some ds \<Rightarrow> ds))"
        using Response loada url ok b noerr files
        by (simp add: fetchPackage_def Let_def a2 split: sum.splits prod.splits)
      from processFiles_result_indep [of env entries "[]" ?s2 ?a2]
      show ?thesis unfolding fs fa
        by (auto split: sum.splits)
    qed
  qed
qed

theorem fetchPackage_cache_first_witness:
  "fst (fetchPackage platform0 1 (\<lambda>url. Response 200 BadJson)
          (fetcher0\<lparr>metaStore := [''nopkg'' \<mapsto> notFoundMeta 1]\<rparr>) ''nopkg'') = None \<and>
   requests (snd (fetchPackage platform0 1 (\<lambda>url. Response 200 BadJson)
          (fetcher0\<lparr>metaStore := [''nopkg'' \<mapsto> notFoundMeta 1]\<rparr>) ''nopkg'')) = [] \<and>
   fst (loadPackageFromCache 2 (fetcher0\<lparr>metaStore := [''nopkg'' \<mapsto> notFoundMeta 1]\<rparr>) ''nopkg'')
     = CacheNull \<and>
   requests (snd (fetchPackage platform0 2 (\<lambda>url. Response 200 BadJson)
          (fetcher0\<lparr>metaStore := [''nopkg'' \<mapsto> notFoundMeta 1]\<rparr>) ''nopkg''))
     = [''http://localhost:8081/api/fetch/nopkg'']"
proof -
  let ?s = "fetcher0\<lparr>metaStore := [''nopkg'' \<mapsto> notFoundMeta 1]\<rparr>"
  have h1: "metaStore ?s ''nopkg'' = Some (notFoundMeta 1) \<and>
            meta_cacheVersion (notFoundMeta 1) = 1 \<and> meta_notFound (notFoundMeta 1)"
    by (simp add: notFoundMeta_def)
  have h2: "metaStore ?s ''nopkg'' = Some (notFoundMeta 1) \<and> meta_cacheVersion (notFoundMeta 1) \<noteq> 2"
    by (simp add: notFoundMeta_def)
  have r: "requests ?s = []" "fetchUrl ?s ''nopkg'' = ''http://localhost:8081/api/fetch/nopkg''"
    by (simp_all add: fetcher0_def fetchUrl_def)
  from fetchPackage_cache_first [of ?s "''nopkg''" "notFoundMeta 1" 1 platform0 "\<lambda>url. Response 200 BadJson"]
       fetchPackage_cache_first [of ?s "''nopkg''" "notFoundMeta 1" 2 platform0 "\<lambda>url. Response 200 BadJson"]
       h1 h2 r
  show ?thesis by simp
qed

section \<open>Engine selector\<close>

subsection \<open>JavaScript strings and the regular expressions of the selector\<close>

text \<open>
  A JavaScript string is a sequence of UTF-16 code units; the regular expressions of the
  selector have no \<open>u\<close> flag and work on code units. \<open>js\<close> turns an ASCII literal into
  such a string; the backslash is the code unit 92, the percent sign 37.
\<close>

type_synonym jsstring = "nat list"

definition js :: "string \<Rightarrow> jsstring" where
  "js t = map of_char t"

text \<open>Line terminators: what \<open>.\<close> does not match and where \<open>$\<close> matches under the
  \<open>m\<close> flag.\<close>

definition is_line_terminator :: "nat \<Rightarrow> bool" where
  "is_line_terminator c = (c = 0x0A \<or> c = 0x0D \<or> c = 0x2028 \<or> c = 0x2029)"

text \<open>The class \<open>\s\<close>, which is also what \<open>trim\<close> removes.\<close>

definition is_space :: "nat \<Rightarrow> bool" where
  "is_space c = (c = 0x09 \<or> c = 0x0A \<or> c = 0x0B \<or> c = 0x0C \<or> c = 0x0D \<or> c = 0x20 \<or>
     c = 0xA0 \<or> c = 0x1680 \<or> (0x2000 \<le> c \<and> c \<le> 0x200A) \<or> c = 0x2028 \<or> c = 0x2029 \<or>
     c = 0x202F \<or> c = 0x205F \<or> c = 0x3000 \<or> c = 0xFEFF)"

text \<open>The class \<open>\w\<close>, which decides \<open>\b\<close>.\<close>

definition is_word :: "nat \<Rightarrow> bool" where
  "is_word c = ((0x30 \<le> c \<and> c \<le> 0x39) \<or> (0x41 \<le> c \<and> c \<le> 0x5A) \<or> c = 0x5F \<or>
     (0x61 \<le> c \<and> c \<le> 0x7A))"

text \<open>
  \<open>s.replace(/%.*$/gm, '')\<close>: from each percent sign that is not already inside a match,
  the match runs up to the next line terminator or the end of the input and is deleted.
  The flag says whether the scan is inside such a match.
\<close>

fun strip_from :: "bool \<Rightarrow> jsstring \<Rightarrow> jsstring" where
  "strip_from inside [] = []"
| "strip_from inside (c # cs) =
     (if is_line_terminator c then c # strip_from False cs
      else if inside \<or> c = 37 then strip_from True cs
      else c # strip_from False cs)"

definition stripComments :: "jsstring \<Rightarrow> jsstring" where
  "stripComments s = strip_from False s"

text \<open>\<open>s.replace(/\s+/g, ' ')\<close>: every maximal run of white space becomes one space.\<close>

fun collapse_from :: "bool \<Rightarrow> jsstring \<Rightarrow> jsstring" where
  "collapse_from inrun [] = []"
| "collapse_from inrun (c # cs) =
     (if is_space c then (if inrun then collapse_from True cs else 32 # collapse_from True cs)
      else c # collapse_from False cs)"

definition collapseSpaces :: "jsstring \<Rightarrow> jsstring" where
  "collapseSpaces s = collapse_from False s"

definition trim :: "jsstring \<Rightarrow> jsstring" where
  "trim s = rev (dropWhile is_space (rev (dropWhile is_space s)))"

text \<open>\<open>s.split(',')\<close>, for any separator code unit.\<close>

fun split_on :: "'a \<Rightarrow> 'a list \<Rightarrow> 'a list list" where
  "split_on sep [] = [[]]"
| "split_on sep (c # cs) =
     (if c = sep then [] # split_on sep cs
      else (case split_on sep cs of [] \<Rightarrow> [[c]] | p # ps \<Rightarrow> (c # p) # ps))"

text \<open>
  The tail of the three package patterns, \<open>\{([^}]+)\}\<close>: an opening brace, at least one
  code unit other than the closing brace, and the closing brace. The result is the group and
  what follows the match.
\<close>

definition match_braces :: "jsstring \<Rightarrow> (jsstring \<times> jsstring) option" where
  "match_braces s =
     (case s of
        [] \<Rightarrow> None
      | c # cs \<Rightarrow>
          if c = 123 then
            (let grp = takeWhile (\<lambda>x. x \<noteq> 125) cs; rest = dropWhile (\<lambda>x. x \<noteq> 125) cs
             in if grp \<noteq> [] \<and> rest \<noteq> [] then Some (grp, tl rest) else None)
          else None)"

text \<open>
  The optional group \<open>(?:\[.*?\])?\<close> after its opening bracket: the lazy \<open>.*?\<close> takes as
  few code units as it can, none of them a line terminator, so that a closing bracket and
  then the braces follow.
\<close>

fun match_options :: "jsstring \<Rightarrow> (jsstring \<times> jsstring) option" where
  "match_options [] = None"
| "match_options (c # cs) =
     (case (if c = 93 then match_braces cs else None) of
        Some r \<Rightarrow> Some r
      | None \<Rightarrow> if is_line_terminator c then None else match_options cs)"

text \<open>A match of \<open>\\name(?:\[.*?\])?\{([^}]+)\}\<close> at the start of the string, where
  \<open>lit\<close> is \<open>\name\<close>. The group is tried first, as \<open>?\<close> is greedy.\<close>

definition match_package_at :: "jsstring \<Rightarrow> jsstring \<Rightarrow> (jsstring \<times> jsstring) option" where
  "match_package_at lit s =
     (if prefix lit s then
        (let t = drop (length lit) s
         in case (case t of [] \<Rightarrow> None | c # cs \<Rightarrow> if c = 91 then match_options cs else None) of
              Some r \<Rightarrow> Some r
            | None \<Rightarrow> match_braces t)
      else None)"


lemma match_braces_shorter: "match_braces s = Some (grp, rest) \<Longrightarrow> length rest < length s"
proof -
  assume a: "match_braces s = Some (grp, rest)"
  then obtain c cs where s: "s = c # cs" by (cases s) (auto simp: match_braces_def)
  from a s have "rest = tl (dropWhile (\<lambda>x. x \<noteq> 125) cs)"
    by (auto simp: match_braces_def Let_def split: if_splits)
  moreover have "length (dropWhile (\<lambda>x. x \<noteq> 125) cs) \<le> length cs"
    by (rule length_dropWhile_le)
  ultimately show ?thesis using s by simp
qed

lemma match_options_shorter: "match_options s = Some (grp, rest) \<Longrightarrow> length rest < length s"
proof (induction s)
  case Nil
  then show ?case by simp
next
  case (Cons c cs)
  show ?case
  proof (cases "if c = 93 then match_braces cs else None")
    case None
    with Cons show ?thesis by (auto split: if_splits)
  next
    case (Some r)
    with Cons.prems have "match_braces cs = Some (grp, rest)" by (auto split: if_splits)
    then show ?thesis using match_braces_shorter by fastforce
  qed
qed

lemma match_package_at_shorter:
  "match_package_at lit s = Some (grp, rest) \<Longrightarrow> length rest < length s"
proof -
  assume a: "match_package_at lit s = Some (grp, rest)"
  let ?t = "drop (length lit) s"
  from a consider
      (opt) cs where "?t = 91 # cs" "match_options cs = Some (grp, rest)"
    | (plain) "match_braces ?t = Some (grp, rest)"
    by (auto simp: match_package_at_def Let_def split: if_splits list.splits option.splits)
  then show ?thesis
  proof cases
    case opt
    then have "length rest < length cs" by (simp add: match_options_shorter)
    also have "length cs < length ?t" using opt by simp
    also have "\<dots> \<le> length s" by simp
    finally show ?thesis .
  next
    case plain
    then have "length rest < length ?t" by (rule match_braces_shorter)
    also have "\<dots> \<le> length s" by simp
    finally show ?thesis .
  qed
qed

text \<open>The loop \<open>while ((match = regex.exec(source)) !== null)\<close> of a pattern with the
  \<open>g\<close> flag: the groups of the successive matches, each search starting where the last
  match ended.\<close>

function match_all :: "jsstring \<Rightarrow> jsstring \<Rightarrow> jsstring list" where
  "match_all lit s =
     (case match_package_at lit s of
        Some (grp, rest) \<Rightarrow> grp # match_all lit rest
      | None \<Rightarrow> (case s of [] \<Rightarrow> [] | c # cs \<Rightarrow> match_all lit cs))"
  by pat_completeness auto
termination
  by (relation "measure (\<lambda>(lit, s). length s)") (auto dest: match_package_at_shorter)

declare match_all.simps [simp del]

text \<open>\<open>source.match(pattern)\<close> without the \<open>g\<close> flag: the group of the first match.\<close>

fun first_match :: "jsstring \<Rightarrow> jsstring \<Rightarrow> jsstring option" where
  "first_match lit [] = map_option fst (match_package_at lit [])"
| "first_match lit (c # cs) =
     (case match_package_at lit (c # cs) of
        Some (grp, rest) \<Rightarrow> Some grp
      | None \<Rightarrow> first_match lit cs)"

definition extractPackages :: "jsstring \<Rightarrow> jsstring list" where
  "extractPackages source =
     concat (map (\<lambda>grp. map trim (split_on 44 grp)) (match_all (92 # js ''usepackage'') source)) @
     (case first_match (92 # js ''documentclass'') source of
        None \<Rightarrow> []
      | Some cls \<Rightarrow> [js ''class:'' @ cls])"

text \<open>The text before the first \<open>lit\<close>, when \<open>lit\<close> occurs.\<close>

fun before_first :: "jsstring \<Rightarrow> jsstring \<Rightarrow> jsstring option" where
  "before_first lit [] = (if lit = [] then Some [] else None)"
| "before_first lit (c # cs) =
     (if prefix lit (c # cs) then Some [] else map_option ((#) c) (before_first lit cs))"

text \<open>\<open>source.match(/^([\s\S]*?)\\begin\{document\}/)\<close>, else the first 2000 code units.\<close>

definition extractPreamble :: "jsstring \<Rightarrow> jsstring" where
  "extractPreamble source =
     (case before_first (92 # js ''begin{document}'') source of
        Some p \<Rightarrow> p
      | None \<Rightarrow> take 2000 source)"

text \<open>\<open>n.toString(36)\<close> for a natural number.\<close>

definition digit36 :: "nat \<Rightarrow> nat" where
  "digit36 d = (if d < 10 then 48 + d else 87 + d)"

fun toString36 :: "nat \<Rightarrow> jsstring" where
  "toString36 n = (if n < 36 then [digit36 n] else toString36 (n div 36) @ [digit36 (n mod 36)])"

declare toString36.simps [simp del]

text \<open>
  The djb2 loop. \<open>hash << 5\<close> and \<open>hash & hash\<close> turn the number into a signed
  32-bit integer, and the sums between them are exact, so every round is the sum modulo
  \<open>2^32\<close>, read as signed.
\<close>

definition djb2 :: "jsstring \<Rightarrow> 32 word" where
  "djb2 s = fold (\<lambda>c hash. push_bit 5 hash + hash + word_of_nat c) s 5381"

definition hashPreamble :: "jsstring \<Rightarrow> jsstring" where
  "hashPreamble preamble =
     (let normalized = trim (collapseSpaces (stripComments preamble))
      in js ''p_'' @ toString36 (nat \<bar>sint (djb2 normalized)\<bar>))"


subsection \<open>The selector\<close>

datatype Engine = pdflatex | xelatex | lualatex

datatype confidence = High | Medium | Low

text \<open>The reason is a template string in the source; the model keeps the template and the
  values put into it.\<close>

datatype reason =
    PackageRequires jsstring Engine
  | CommandRequires jsstring Engine
  | RequirementDescription string
  | HistoricalBest int
  | Avoiding "Engine list"
  | CmSuperLearned
  | PackagePreferred jsstring string
  | DefaultEngine

record SelectionResult =
  sel_engine :: Engine
  sel_reason :: reason
  sel_confidence :: confidence

text \<open>
  Numbers are JavaScript doubles in the source. The model takes them as rationals, so
  sums, products and quotients are exact.
\<close>

record CompileResult =
  cr_engine :: Engine
  cr_success :: bool
  cr_timeMs :: rat
  cr_retries :: nat
  cr_fetchedPackages :: "jsstring list"
  cr_triggeredCmSuper :: bool

record EngineStats =
  engine :: Engine
  compileCount :: nat
  avgTimeMs :: rat
  successRate :: rat
  lastUsed :: rat

text \<open>
  Every command pattern of the tables has the form \<open>/\\name\b/\<close>; \<open>req_commands\<close>
  holds the literals \<open>\name\<close>. \<open>req_scripts\<close> holds the ranges of the character
  class; the pattern \<open>/(?!)/\<close>, which never matches, is the empty list.
\<close>

record EngineRequirement =
  req_packages :: "jsstring list"
  req_commands :: "jsstring list"
  req_scripts :: "(nat \<times> nat) list"
  req_description :: string

record EnginePreference =
  pref_packages :: "jsstring list"
  pref_description :: string

definition xelatex_requirement :: EngineRequirement where
  "xelatex_requirement = \<lparr>
     req_packages = map js [''fontspec'', ''unicode-math'', ''polyglossia'', ''xeCJK'', ''xunicode'',
        ''xltxtra'', ''mathspec'', ''realscripts'', ''metalogo'', ''xetex''],
     req_commands = map (\<lambda>n. 92 # js n) [''setmainfont'', ''setsansfont'', ''setmonofont'',
        ''newfontfamily'', ''setmathfont'', ''defaultfontfeatures''],
     req_scripts = [(0x0600, 0x06FF), (0x0900, 0x097F), (0x0E00, 0x0E7F), (0x3000, 0x9FFF),
        (0xAC00, 0xD7AF)],
     req_description = ''XeLaTeX required for Unicode/OpenType features'' \<rparr>"

definition lualatex_requirement :: EngineRequirement where
  "lualatex_requirement = \<lparr>
     req_packages = map js [''luacode'', ''luatexbase'', ''luaotfload'', ''luamplib'', ''luatextra''],
     req_commands = map (\<lambda>n. 92 # js n) [''directlua'', ''luaexec'', ''luadirect''],
     req_scripts = [],
     req_description = ''LuaLaTeX required for Lua scripting'' \<rparr>"

definition getDefaultRequirements :: "(Engine \<times> EngineRequirement) list" where
  "getDefaultRequirements = [(xelatex, xelatex_requirement), (lualatex, lualatex_requirement)]"

definition getDefaultPreferences :: "(Engine \<times> EnginePreference) list" where
  "getDefaultPreferences = [(xelatex, \<lparr>
     pref_packages = map js [''geometry'', ''fancyhdr'', ''titlesec'', ''enumitem'', ''babel'',
        ''inputenc'', ''fontenc''],
     pref_description = ''XeLaTeX preferred for cleaner font handling'' \<rparr>)]"

text \<open>
  What the storage adapter holds under a key: the JSON text of a statistics array, kept as
  the array it parses to, or any other text (the flag \<open>'true'\<close>; a text that
  \<open>JSON.parse\<close> rejects).
\<close>

datatype stored = StatsJson "EngineStats list" | Text string

record EngineSelector =
  storage :: "jsstring \<rightharpoonup> stored"
  requirements :: "(Engine \<times> EngineRequirement) list"
  preferences :: "(Engine \<times> EnginePreference) list"

text \<open>\<open>/\\name\b/\<close> at the start of \<open>t\<close>: the literal, and then a word boundary, which
  is a change between word and non-word code units (the end of the input is non-word).\<close>

definition match_command_at :: "jsstring \<Rightarrow> jsstring \<Rightarrow> bool" where
  "match_command_at lit t =
     (prefix lit t \<and>
      is_word (last lit) \<noteq> (case drop (length lit) t of [] \<Rightarrow> False | c # cs \<Rightarrow> is_word c))"

text \<open>\<open>cmd.test(s)\<close>: a match at some position.\<close>

fun command_test :: "jsstring \<Rightarrow> jsstring \<Rightarrow> bool" where
  "command_test lit [] = match_command_at lit []"
| "command_test lit (c # cs) = (match_command_at lit (c # cs) \<or> command_test lit cs)"

definition in_ranges :: "(nat \<times> nat) list \<Rightarrow> nat \<Rightarrow> bool" where
  "in_ranges ranges c = list_ex (\<lambda>(lo, hi). lo \<le> c \<and> c \<le> hi) ranges"

definition scripts_test :: "(nat \<times> nat) list \<Rightarrow> jsstring \<Rightarrow> bool" where
  "scripts_test ranges s = list_ex (in_ranges ranges) s"

text \<open>The loop of \<open>checkRequirements\<close> over the requirement table, on the source without
  its comments.\<close>

fun check_requirements_loop :: "(Engine \<times> EngineRequirement) list \<Rightarrow> jsstring \<Rightarrow> jsstring list
    \<Rightarrow> SelectionResult option" where
  "check_requirements_loop [] withoutComments packages = None"
| "check_requirements_loop ((eng, req) # rest) withoutComments packages =
     (case find (\<lambda>pkg. pkg \<in> set (req_packages req)) packages of
        Some pkg \<Rightarrow>
          Some \<lparr> sel_engine = eng, sel_reason = PackageRequires pkg eng, sel_confidence = High \<rparr>
      | None \<Rightarrow>
          (case find (\<lambda>cmd. command_test cmd withoutComments) (req_commands req) of
             Some cmd \<Rightarrow>
               Some \<lparr> sel_engine = eng, sel_reason = CommandRequires cmd eng, sel_confidence = High \<rparr>
           | None \<Rightarrow>
               if scripts_test (req_scripts req) withoutComments
               then Some \<lparr> sel_engine = eng, sel_reason = RequirementDescription (req_description req),
                            sel_confidence = High \<rparr>
               else check_requirements_loop rest withoutComments packages))"

definition checkRequirements :: "EngineSelector \<Rightarrow> jsstring \<Rightarrow> jsstring list \<Rightarrow> SelectionResult option" where
  "checkRequirements sel source packages =
     check_requirements_loop (requirements sel) (stripComments source) packages"

fun checkPreferences_loop :: "(Engine \<times> EnginePreference) list \<Rightarrow> jsstring list
    \<Rightarrow> SelectionResult option" where
  "checkPreferences_loop [] packages = None"
| "checkPreferences_loop ((eng, pref) # rest) packages =
     (case find (\<lambda>pkg. pkg \<in> set (pref_packages pref)) packages of
        Some pkg \<Rightarrow>
          Some \<lparr> sel_engine = eng, sel_reason = PackagePreferred pkg (pref_description pref),
                 sel_confidence = Medium \<rparr>
      | None \<Rightarrow> checkPreferences_loop rest packages)"

definition checkPreferences :: "EngineSelector \<Rightarrow> jsstring list \<Rightarrow> SelectionResult option" where
  "checkPreferences sel packages = checkPreferences_loop (preferences sel) packages"

definition statsKey :: "jsstring \<Rightarrow> jsstring" where
  "statsKey preambleHash = js ''stats_'' @ preambleHash"

definition cmsuperKey :: "jsstring \<Rightarrow> jsstring" where
  "cmsuperKey preambleHash = js ''cmsuper_'' @ preambleHash"

definition getStats :: "EngineSelector \<Rightarrow> jsstring \<Rightarrow> EngineStats list option" where
  "getStats sel preambleHash =
     (case storage sel (statsKey preambleHash) of
        Some (StatsJson stats) \<Rightarrow> Some stats
      | _ \<Rightarrow> None)"

definition saveStats :: "jsstring \<Rightarrow> EngineStats list \<Rightarrow> EngineSelector \<Rightarrow> EngineSelector" where
  "saveStats preambleHash stats sel =
     sel\<lparr>storage := (storage sel)(statsKey preambleHash \<mapsto> StatsJson stats)\<rparr>"

text \<open>\<open>Math.round\<close>\<close>

definition js_round :: "rat \<Rightarrow> int" where
  "js_round x = \<lfloor>x + 1 / 2\<rfloor>"

text \<open>\<open>successful.reduce((a, b) => a.avgTimeMs < b.avgTimeMs ? a : b)\<close> on a list that is
  not empty.\<close>

definition fastest_of :: "EngineStats list \<Rightarrow> EngineStats" where
  "fastest_of successful =
     foldl (\<lambda>a b. if avgTimeMs a < avgTimeMs b then a else b) (hd successful) (tl successful)"

text \<open>Step 2 of \<open>select\<close>, for statistics that are present and not empty.\<close>

definition select_historical :: "EngineStats list \<Rightarrow> SelectionResult option" where
  "select_historical stats =
     (let successful = filter (\<lambda>s. successRate s > 1 / 2 \<and> compileCount s \<ge> 2) stats
      in if successful \<noteq> [] then
           (let fastest = fastest_of successful
            in Some \<lparr> sel_engine = engine fastest,
                      sel_reason = HistoricalBest (js_round (avgTimeMs fastest)),
                      sel_confidence = High \<rparr>)
         else
           (let failed = filter (\<lambda>s. successRate s < 1 / 2) stats
            in if failed \<noteq> [] then
                 (let failedEngines = fold set_add (map engine failed) [];
                      viable = filter (\<lambda>e. e \<notin> set failedEngines) [pdflatex, xelatex, lualatex]
                  in if viable \<noteq> [] then
                       Some \<lparr> sel_engine = hd viable, sel_reason = Avoiding failedEngines,
                              sel_confidence = Medium \<rparr>
                     else None)
               else None))"

definition select :: "EngineSelector \<Rightarrow> jsstring \<Rightarrow> SelectionResult" where
  "select sel source =
     (let packages = extractPackages source;
          preamble = extractPreamble source;
          preambleHash = hashPreamble preamble
      in case checkRequirements sel source packages of
           Some required \<Rightarrow> required
         | None \<Rightarrow>
             (case (case getStats sel preambleHash of
                      None \<Rightarrow> None
                    | Some stats \<Rightarrow> if stats \<noteq> [] then select_historical stats else None) of
                Some r \<Rightarrow> r
              | None \<Rightarrow>
                  if storage sel (cmsuperKey preambleHash) = Some (Text ''true'')
                  then \<lparr> sel_engine = xelatex, sel_reason = CmSuperLearned, sel_confidence = High \<rparr>
                  else (case checkPreferences sel packages of
                          Some preferred \<Rightarrow> preferred
                        | None \<Rightarrow> \<lparr> sel_engine = pdflatex, sel_reason = DefaultEngine,
                                     sel_confidence = Low \<rparr>)))"

text \<open>The update of the running averages of one entry.\<close>

definition update_entry :: "CompileResult \<Rightarrow> rat \<Rightarrow> EngineStats \<Rightarrow> EngineStats" where
  "update_entry result now engineStats =
     (let n = of_nat (compileCount engineStats)
      in engineStats\<lparr>
           avgTimeMs := (avgTimeMs engineStats * n + cr_timeMs result) / (n + 1),
           successRate := (successRate engineStats * n + (if cr_success result then 1 else 0)) / (n + 1),
           compileCount := compileCount engineStats + 1,
           lastUsed := now \<rparr>)"

text \<open>\<open>stats.find(s => s.engine === result.engine)\<close> followed by the update in place
  of the entry found, or of a fresh entry pushed at the end.\<close>

fun update_stats :: "CompileResult \<Rightarrow> rat \<Rightarrow> EngineStats list \<Rightarrow> EngineStats list" where
  "update_stats result now [] =
     [update_entry result now \<lparr> engine = cr_engine result, compileCount = 0, avgTimeMs = 0,
        successRate = 0, lastUsed = now \<rparr>]"
| "update_stats result now (s # stats) =
     (if engine s = cr_engine result then update_entry result now s # stats
      else s # update_stats result now stats)"

text \<open>\<open>recordResult\<close>; \<open>now\<close> is the value of \<open>Date.now()\<close>.\<close>

definition recordResult :: "EngineSelector \<Rightarrow> jsstring \<Rightarrow> CompileResult \<Rightarrow> rat \<Rightarrow> EngineSelector" where
  "recordResult sel source result now =
     (let preamble = extractPreamble source;
          preambleHash = hashPreamble preamble;
          stats = (case getStats sel preambleHash of None \<Rightarrow> [] | Some st \<Rightarrow> st);
          sel1 = saveStats preambleHash (update_stats result now stats) sel
      in if cr_triggeredCmSuper result \<and> cr_engine result = pdflatex
         then sel1\<lparr>storage := (storage sel1)(cmsuperKey preambleHash \<mapsto> Text ''true'')\<rparr>
         else sel1)"


text \<open>Examples used below: a selector with the default tables and an empty store, a
  source, and results.\<close>

definition selector0 :: EngineSelector where
  "selector0 = \<lparr> storage = Map.empty, requirements = getDefaultRequirements,
     preferences = getDefaultPreferences \<rparr>"

definition article_source :: jsstring where
  "article_source = 92 # js ''documentclass{article}''"

definition result_ok :: "Engine \<Rightarrow> rat \<Rightarrow> CompileResult" where
  "result_ok e t = \<lparr> cr_engine = e, cr_success = True, cr_timeMs = t, cr_retries = 0,
     cr_fetchedPackages = [], cr_triggeredCmSuper = False \<rparr>"

definition result_failed :: "Engine \<Rightarrow> rat \<Rightarrow> CompileResult" where
  "result_failed e t = \<lparr> cr_engine = e, cr_success = False, cr_timeMs = t, cr_retries = 0,
     cr_fetchedPackages = [], cr_triggeredCmSuper = False \<rparr>"

subsection \<open>Properties of \<open>recordResult\<close>\<close>

text \<open>The entry of an engine in a statistics array, the array stored for a fingerprint
  (empty when there is none), and a sequence of calls of \<open>recordResult\<close>, each with its
  source, its result and its clock value.\<close>

definition entry_for :: "Engine \<Rightarrow> EngineStats list \<Rightarrow> EngineStats option" where
  "entry_for e stats = find (\<lambda>s. engine s = e) stats"

definition stats_for :: "EngineSelector \<Rightarrow> jsstring \<Rightarrow> EngineStats list" where
  "stats_for sel preambleHash = (case getStats sel preambleHash of None \<Rightarrow> [] | Some st \<Rightarrow> st)"

definition recordResults :: "EngineSelector \<Rightarrow> (jsstring \<times> CompileResult \<times> rat) list \<Rightarrow> EngineSelector" where
  "recordResults sel calls = fold (\<lambda>(source, result, now) s. recordResult s source result now) calls sel"

text \<open>The results, among the calls, for the fingerprint \<open>h\<close> and the engine \<open>e\<close>.\<close>

definition results_for :: "jsstring \<Rightarrow> Engine \<Rightarrow> (jsstring \<times> CompileResult \<times> rat) list \<Rightarrow> CompileResult list" where
  "results_for h e calls =
     map (\<lambda>(source, result, now). result)
       (filter (\<lambda>(source, result, now). hashPreamble (extractPreamble source) = h \<and> cr_engine result = e)
          calls)"

definition entry_count :: "EngineStats option \<Rightarrow> nat" where
  "entry_count eo = (case eo of None \<Rightarrow> 0 | Some s \<Rightarrow> compileCount s)"

definition entry_total :: "EngineStats option \<Rightarrow> rat" where
  "entry_total eo = (case eo of None \<Rightarrow> 0 | Some s \<Rightarrow> avgTimeMs s * of_nat (compileCount s))"

definition entry_successes :: "EngineStats option \<Rightarrow> rat" where
  "entry_successes eo = (case eo of None \<Rightarrow> 0 | Some s \<Rightarrow> successRate s * of_nat (compileCount s))"

lemma entry_for_update_stats_other:
  "cr_engine r \<noteq> e \<Longrightarrow> entry_for e (update_stats r now stats) = entry_for e stats"
  by (induction stats) (auto simp: entry_for_def update_entry_def Let_def)

lemma entry_for_update_stats_same:
  "entry_for (cr_engine r) (update_stats r now stats) =
     Some (update_entry r now
       (case entry_for (cr_engine r) stats of
          Some s \<Rightarrow> s
        | None \<Rightarrow> \<lparr> engine = cr_engine r, compileCount = 0, avgTimeMs = 0, successRate = 0,
                     lastUsed = now \<rparr>))"
  by (induction stats) (auto simp: entry_for_def update_entry_def Let_def)

lemma update_entry_count: "compileCount (update_entry r now s) = compileCount s + 1"
  by (simp add: update_entry_def Let_def)

lemma update_entry_total:
  "avgTimeMs (update_entry r now s) * of_nat (compileCount (update_entry r now s))
     = avgTimeMs s * of_nat (compileCount s) + cr_timeMs r"
proof -
  let ?n = "of_nat (compileCount s) :: rat"
  have nz: "?n + 1 \<noteq> 0"
    using of_nat_0_le_iff [of "compileCount s", where 'a = rat] by linarith
  have cnt: "of_nat (compileCount (update_entry r now s)) = ?n + 1"
    by (simp add: update_entry_def Let_def)
  have avg: "avgTimeMs (update_entry r now s) = (avgTimeMs s * ?n + cr_timeMs r) / (?n + 1)"
    by (simp add: update_entry_def Let_def)
  show ?thesis unfolding cnt avg using nz by simp
qed

lemma update_entry_successes:
  "successRate (update_entry r now s) * of_nat (compileCount (update_entry r now s))
     = successRate s * of_nat (compileCount s) + (if cr_success r then 1 else 0)"
proof -
  let ?n = "of_nat (compileCount s) :: rat"
  have nz: "?n + 1 \<noteq> 0"
    using of_nat_0_le_iff [of "compileCount s", where 'a = rat] by linarith
  have cnt: "of_nat (compileCount (update_entry r now s)) = ?n + 1"
    by (simp add: update_entry_def Let_def)
  have avg: "successRate (update_entry r now s)
               = (successRate s * ?n + (if cr_success r then 1 else 0)) / (?n + 1)"
    by (simp add: update_entry_def Let_def)
  show ?thesis unfolding cnt avg using nz by simp
qed

lemma statsKey_inject [simp]: "statsKey h = statsKey h' \<longleftrightarrow> h = h'"
  by (simp add: statsKey_def)

lemma cmsuperKey_not_statsKey [simp]: "cmsuperKey h \<noteq> statsKey h'" "statsKey h' \<noteq> cmsuperKey h"
  by (simp_all add: cmsuperKey_def statsKey_def js_def)

lemma stats_for_recordResult:
  "stats_for (recordResult sel source r now) h =
     (if hashPreamble (extractPreamble source) = h then update_stats r now (stats_for sel h)
      else stats_for sel h)"
  by (simp add: recordResult_def stats_for_def getStats_def saveStats_def Let_def)

lemma entry_step_relevant:
  assumes "hashPreamble (extractPreamble source) = h" "cr_engine r = e"
  shows "entry_count (entry_for e (stats_for (recordResult sel source r now) h))
           = entry_count (entry_for e (stats_for sel h)) + 1"
    and "entry_total (entry_for e (stats_for (recordResult sel source r now) h))
           = entry_total (entry_for e (stats_for sel h)) + cr_timeMs r"
    and "entry_successes (entry_for e (stats_for (recordResult sel source r now) h))
           = entry_successes (entry_for e (stats_for sel h)) + (if cr_success r then 1 else 0)"
proof -
  let ?fresh = "\<lparr> engine = cr_engine r, compileCount = 0, avgTimeMs = 0, successRate = 0,
                  lastUsed = now \<rparr>"
  let ?old = "case entry_for e (stats_for sel h) of Some s \<Rightarrow> s | None \<Rightarrow> ?fresh"
  have new: "entry_for e (stats_for (recordResult sel source r now) h) = Some (update_entry r now ?old)"
    using assms entry_for_update_stats_same [of r now "stats_for sel h"]
    by (simp add: stats_for_recordResult)
  have c: "entry_count (entry_for e (stats_for sel h)) = compileCount ?old"
    by (simp add: entry_count_def split: option.splits)
  have t: "entry_total (entry_for e (stats_for sel h)) = avgTimeMs ?old * of_nat (compileCount ?old)"
    by (simp add: entry_total_def split: option.splits)
  have u: "entry_successes (entry_for e (stats_for sel h)) = successRate ?old * of_nat (compileCount ?old)"
    by (simp add: entry_successes_def split: option.splits)
  show "entry_count (entry_for e (stats_for (recordResult sel source r now) h))
           = entry_count (entry_for e (stats_for sel h)) + 1"
    unfolding new c by (simp add: entry_count_def update_entry_count)
  show "entry_total (entry_for e (stats_for (recordResult sel source r now) h))
           = entry_total (entry_for e (stats_for sel h)) + cr_timeMs r"
    unfolding new t using update_entry_total [of r now ?old] by (simp add: entry_total_def)
  show "entry_successes (entry_for e (stats_for (recordResult sel source r now) h))
           = entry_successes (entry_for e (stats_for sel h)) + (if cr_success r then 1 else 0)"
    unfolding new u using update_entry_successes [of r now ?old] by (simp add: entry_successes_def)
qed

lemma entry_step_irrelevant:
  assumes "\<not> (hashPreamble (extractPreamble source) = h \<and> cr_engine r = e)"
  shows "entry_for e (stats_for (recordResult sel source r now) h) = entry_for e (stats_for sel h)"
  using assms by (auto simp: stats_for_recordResult entry_for_update_stats_other)

lemma recordResults_tally:
  "entry_count (entry_for e (stats_for (recordResults sel calls) h))
     = entry_count (entry_for e (stats_for sel h)) + length (results_for h e calls) \<and>
   entry_total (entry_for e (stats_for (recordResults sel calls) h))
     = entry_total (entry_for e (stats_for sel h)) + sum_list (map cr_timeMs (results_for h e calls)) \<and>
   entry_successes (entry_for e (stats_for (recordResults sel calls) h))
     = entry_successes (entry_for e (stats_for sel h))
       + of_nat (length (filter cr_success (results_for h e calls)))"
proof (induction calls arbitrary: sel)
  case Nil
  show ?case by (simp add: recordResults_def results_for_def)
next
  case (Cons c calls)
  obtain source r now where c: "c = (source, r, now)" by (cases c)
  have unfold: "recordResults sel (c # calls) = recordResults (recordResult sel source r now) calls"
    by (simp add: recordResults_def c)
  show ?case
  proof (cases "hashPreamble (extractPreamble source) = h \<and> cr_engine r = e")
    case True
    then have rf: "results_for h e (c # calls) = r # results_for h e calls"
      by (simp add: results_for_def c)
    from True have hh: "hashPreamble (extractPreamble source) = h" and ee: "cr_engine r = e" by simp_all
    show ?thesis
      unfolding unfold rf
      using Cons.IH [of "recordResult sel source r now"] entry_step_relevant [OF hh ee, of sel now]
      by simp
  next
    case False
    then have rf: "results_for h e (c # calls) = results_for h e calls"
      by (auto simp: results_for_def c)
    show ?thesis
      unfolding unfold rf
      using Cons.IH [of "recordResult sel source r now"] entry_step_irrelevant [OF False, of sel now]
      by simp
  qed
qed




subsection \<open>Properties of \<open>select\<close>\<close>

lemma foldl_fastest:
  "foldl (\<lambda>a b. if avgTimeMs a < avgTimeMs b then a else b) (a :: EngineStats) xs \<in> set (a # xs) \<and>
   (\<forall>s \<in> set (a # xs).
      avgTimeMs (foldl (\<lambda>a b. if avgTimeMs a < avgTimeMs b then a else b) a xs) \<le> avgTimeMs s)"
proof (induction xs arbitrary: a)
  case Nil
  show ?case by simp
next
  case (Cons x xs)
  let ?f = "\<lambda>a b :: EngineStats. if avgTimeMs a < avgTimeMs b then a else b"
  let ?m = "foldl ?f (?f a x) xs"
  from Cons.IH [of "?f a x"]
  have mem: "?m \<in> set (?f a x # xs)" and le: "\<forall>s \<in> set (?f a x # xs). avgTimeMs ?m \<le> avgTimeMs s"
    by blast+
  have fle: "avgTimeMs (?f a x) \<le> avgTimeMs a" "avgTimeMs (?f a x) \<le> avgTimeMs x"
    by auto
  from le have "avgTimeMs ?m \<le> avgTimeMs (?f a x)" by simp
  with fle have "avgTimeMs ?m \<le> avgTimeMs a" "avgTimeMs ?m \<le> avgTimeMs x" by linarith+
  moreover from le have "\<forall>s \<in> set xs. avgTimeMs ?m \<le> avgTimeMs s" by simp
  moreover have "?m \<in> set (a # x # xs)" using mem by (auto split: if_splits)
  ultimately show ?case by simp
qed

lemma fastest_of_min:
  assumes "successful \<noteq> []"
  shows "fastest_of successful \<in> set successful \<and>
         (\<forall>s \<in> set successful. avgTimeMs (fastest_of successful) \<le> avgTimeMs s)"
proof -
  from assms obtain a xs where s: "successful = a # xs" by (cases successful) auto
  show ?thesis using foldl_fastest [of a xs] unfolding s fastest_of_def by simp
qed

text \<open>
  C7. When no hard requirement selects an engine and the statistics stored for the
  fingerprint of the preamble have an entry with \<open>compileCount\<close> at least 2 and
  \<open>successRate\<close> above one half, \<open>select\<close> returns the engine of such an entry whose
  \<open>avgTimeMs\<close> is minimal among these entries, with confidence high.
\<close>

theorem select_historical_best:
  assumes none: "checkRequirements sel source (extractPackages source) = None"
    and stats: "getStats sel (hashPreamble (extractPreamble source)) = Some stats"
    and some: "\<exists>s \<in> set stats. successRate s > 1 / 2 \<and> compileCount s \<ge> 2"
  shows "\<exists>f \<in> set stats. successRate f > 1 / 2 \<and> compileCount f \<ge> 2 \<and>
           (\<forall>s \<in> set stats. successRate s > 1 / 2 \<and> compileCount s \<ge> 2 \<longrightarrow> avgTimeMs f \<le> avgTimeMs s) \<and>
           sel_engine (select sel source) = engine f \<and>
           sel_confidence (select sel source) = High"
proof -
  let ?successful = "filter (\<lambda>s. successRate s > 1 / 2 \<and> compileCount s \<ge> 2) stats"
  from some have ne: "?successful \<noteq> []" by (auto simp: filter_empty_conv)
  then have st: "stats \<noteq> []" by auto
  have hist: "select_historical stats =
      Some \<lparr> sel_engine = engine (fastest_of ?successful),
             sel_reason = HistoricalBest (js_round (avgTimeMs (fastest_of ?successful))),
             sel_confidence = High \<rparr>"
    using ne by (simp add: select_historical_def Let_def)
  have sel: "select sel source =
      \<lparr> sel_engine = engine (fastest_of ?successful),
        sel_reason = HistoricalBest (js_round (avgTimeMs (fastest_of ?successful))),
        sel_confidence = High \<rparr>"
    using none stats st hist by (simp add: select_def Let_def)
  from fastest_of_min [OF ne]
  have mem: "fastest_of ?successful \<in> set ?successful"
    and le: "\<forall>s \<in> set ?successful. avgTimeMs (fastest_of ?successful) \<le> avgTimeMs s"
    by blast+
  show ?thesis
  proof (intro bexI [of _ "fastest_of ?successful"] conjI)
    show "fastest_of ?successful \<in> set stats" using mem by simp
    show "1 / 2 < successRate (fastest_of ?successful)" using mem by simp
    show "2 \<le> compileCount (fastest_of ?successful)" using mem by simp
    show "\<forall>s \<in> set stats. successRate s > 1 / 2 \<and> compileCount s \<ge> 2
            \<longrightarrow> avgTimeMs (fastest_of ?successful) \<le> avgTimeMs s"
      using le by simp
    show "sel_engine (select sel source) = engine (fastest_of ?successful)" by (simp add: sel)
    show "sel_confidence (select sel source) = High" by (simp add: sel)
  qed
qed

definition history_stats :: "EngineStats list" where
  "history_stats =
     [\<lparr> engine = pdflatex, compileCount = 3, avgTimeMs = 200, successRate = 1, lastUsed = 1 \<rparr>,
      \<lparr> engine = xelatex, compileCount = 2, avgTimeMs = 100, successRate = 1, lastUsed = 2 \<rparr>,
      \<lparr> engine = lualatex, compileCount = 1, avgTimeMs = 50, successRate = 1, lastUsed = 3 \<rparr>]"

definition selector_with_history :: EngineSelector where
  "selector_with_history = selector0\<lparr>storage :=
     [statsKey (hashPreamble (extractPreamble article_source)) \<mapsto> StatsJson history_stats]\<rparr>"

lemma article_source_no_requirement:
  "check_requirements_loop getDefaultRequirements (stripComments article_source)
     (extractPackages article_source) = None"
  by (simp add: getDefaultRequirements_def xelatex_requirement_def lualatex_requirement_def
      stripComments_def article_source_def js_def extractPackages_def match_all.simps
      match_package_at_def match_braces_def is_line_terminator_def match_command_at_def
      scripts_test_def in_ranges_def is_word_def trim_def is_space_def)

theorem select_historical_best_witness:
  "checkRequirements selector_with_history article_source (extractPackages article_source) = None \<and>
   getStats selector_with_history (hashPreamble (extractPreamble article_source)) = Some history_stats \<and>
   sel_engine (select selector_with_history article_source) = xelatex \<and>
   sel_confidence (select selector_with_history article_source) = High"
proof -
  have none: "checkRequirements selector_with_history article_source (extractPackages article_source) = None"
    using article_source_no_requirement
    by (simp add: checkRequirements_def selector_with_history_def selector0_def)
  have stats: "getStats selector_with_history (hashPreamble (extractPreamble article_source))
                 = Some history_stats"
    by (simp add: getStats_def selector_with_history_def)
  have some: "\<exists>s \<in> set history_stats. successRate s > 1 / 2 \<and> compileCount s \<ge> 2"
    by (simp add: history_stats_def)
  from select_historical_best [OF none stats some]
  obtain f where f: "f \<in> set history_stats" "compileCount f \<ge> 2"
    and le: "\<forall>s \<in> set history_stats. successRate s > 1 / 2 \<and> compileCount s \<ge> 2 \<longrightarrow> avgTimeMs f \<le> avgTimeMs s"
    and eng: "sel_engine (select selector_with_history article_source) = engine f"
    and conf: "sel_confidence (select selector_with_history article_source) = High"
    by blast
  from f le have "engine f = xelatex"
    by (auto simp: history_stats_def)
  with none stats eng conf show ?thesis by simp
qed

subsection \<open>Properties of \<open>checkRequirements\<close>\<close>

text \<open>
  Position \<open>i\<close> of the source is inside a line comment: a percent sign stands at or
  before it, and no line terminator stands between that sign and the position, the
  position included.
\<close>

definition in_line_comment :: "jsstring \<Rightarrow> nat \<Rightarrow> bool" where
  "in_line_comment s i =
     (\<exists>j \<in> {..i}. s ! j = 37 \<and> (\<forall>k \<in> {j..i}. \<not> is_line_terminator (s ! k)))"

text \<open>The state of the scan of \<open>strip_from\<close> after a prefix of the input.\<close>

fun scan_state :: "bool \<Rightarrow> jsstring \<Rightarrow> bool" where
  "scan_state inside [] = inside"
| "scan_state inside (c # cs) =
     scan_state (if is_line_terminator c then False else inside \<or> c = 37) cs"

text \<open>What the proofs need of a requirement: a command literal is not empty and has no
  percent sign and no line terminator, and no script range has either.\<close>

definition command_literal :: "jsstring \<Rightarrow> bool" where
  "command_literal lit = (lit \<noteq> [] \<and> (\<forall>c \<in> set lit. c \<noteq> 37 \<and> \<not> is_line_terminator c))"

definition plain_ranges :: "(nat \<times> nat) list \<Rightarrow> bool" where
  "plain_ranges ranges =
     (\<not> in_ranges ranges 37 \<and> \<not> in_ranges ranges 0x0A \<and> \<not> in_ranges ranges 0x0D \<and>
      \<not> in_ranges ranges 0x2028 \<and> \<not> in_ranges ranges 0x2029)"

lemma scan_state_snoc:
  "scan_state b (xs @ [c]) = (if is_line_terminator c then False else scan_state b xs \<or> c = 37)"
  by (induction xs arbitrary: b) auto

lemma scan_state_from_percent:
  assumes "j < length xs" "xs ! j = 37" "\<forall>k. j \<le> k \<and> k < length xs \<longrightarrow> \<not> is_line_terminator (xs ! k)"
  shows "scan_state b xs"
  using assms
proof (induction xs rule: rev_induct)
  case Nil
  then show ?case by simp
next
  case (snoc c xs)
  have nlt: "\<not> is_line_terminator c"
    using snoc.prems(1,3) by (auto simp: nth_append dest: spec [of _ "length xs"])
  show ?case
  proof (cases "j = length xs")
    case True
    with snoc.prems(2) have "c = 37" by simp
    with nlt show ?thesis by (simp add: scan_state_snoc)
  next
    case False
    with snoc.prems(1) have j: "j < length xs" by simp
    have "xs ! j = 37" using snoc.prems(2) j by (simp add: nth_append)
    moreover have "\<forall>k. j \<le> k \<and> k < length xs \<longrightarrow> \<not> is_line_terminator (xs ! k)"
    proof (intro allI impI)
      fix k assume k: "j \<le> k \<and> k < length xs"
      with snoc.prems(3) have "\<not> is_line_terminator ((xs @ [c]) ! k)" by simp
      with k show "\<not> is_line_terminator (xs ! k)" by (simp add: nth_append)
    qed
    ultimately have "scan_state b xs" using j snoc.IH by blast
    with nlt show ?thesis by (simp add: scan_state_snoc)
  qed
qed

lemma in_line_comment_scan_state:
  assumes i: "i < length s" and c: "in_line_comment s i" and np: "s ! i \<noteq> 37"
  shows "scan_state False (take i s)"
proof -
  from c obtain j where j: "j \<le> i" "s ! j = 37"
    and nl: "\<forall>k \<in> {j..i}. \<not> is_line_terminator (s ! k)"
    by (auto simp: in_line_comment_def)
  from j np have ji: "j < i" by (cases "j = i") auto
  show ?thesis
  proof (rule scan_state_from_percent [of j])
    show "j < length (take i s)" using ji i by simp
    show "take i s ! j = 37" using ji j by simp
    show "\<forall>k. j \<le> k \<and> k < length (take i s) \<longrightarrow> \<not> is_line_terminator (take i s ! k)"
      using nl i by auto
  qed
qed

lemma not_word_line_terminator: "is_line_terminator c \<Longrightarrow> \<not> is_word c"
  by (auto simp: is_line_terminator_def is_word_def)

lemma strip_inside_head:
  "strip_from True cs = [] \<or> is_line_terminator (hd (strip_from True cs))"
  by (induction cs) auto

lemma word_at_strip:
  "(case strip_from False r of [] \<Rightarrow> False | c # cs \<Rightarrow> is_word c) =
   (case r of [] \<Rightarrow> False | c # cs \<Rightarrow> is_word c)"
proof (cases r)
  case Nil
  then show ?thesis by simp
next
  case (Cons c cs)
  show ?thesis
  proof (cases "\<not> is_line_terminator c \<and> c = 37")
    case True
    then have w: "\<not> is_word c" by (simp add: is_word_def)
    from strip_inside_head [of cs]
    have "(case strip_from True cs of [] \<Rightarrow> False | c # cs \<Rightarrow> is_word c) = False"
      by (cases "strip_from True cs") (auto dest: not_word_line_terminator)
    with True w Cons show ?thesis by simp
  next
    case False
    with Cons show ?thesis by auto
  qed
qed

lemma prefix_strip:
  assumes "\<forall>c \<in> set lit. c \<noteq> 37 \<and> \<not> is_line_terminator c"
    and "prefix lit (strip_from False s)"
  shows "prefix lit s \<and> drop (length lit) (strip_from False s) = strip_from False (drop (length lit) s)"
  using assms
proof (induction lit arbitrary: s)
  case Nil
  show ?case by simp
next
  case (Cons l ls)
  from Cons.prems(1) have l: "l \<noteq> 37" "\<not> is_line_terminator l" by simp_all
  from Cons.prems(2) obtain c cs where s: "s = c # cs" by (cases s) auto
  have nlt: "\<not> is_line_terminator c"
  proof
    assume "is_line_terminator c"
    with Cons.prems(2) s have "l = c" by simp
    with l \<open>is_line_terminator c\<close> show False by simp
  qed
  have np: "c \<noteq> 37"
  proof
    assume "c = 37"
    with nlt s Cons.prems(2) have p: "prefix (l # ls) (strip_from True cs)" by simp
    then have "strip_from True cs \<noteq> []" and "hd (strip_from True cs) = l"
      by (auto simp: prefix_def)
    with strip_inside_head [of cs] l show False by auto
  qed
  from nlt np s Cons.prems(2) have "l = c" and "prefix ls (strip_from False cs)" by simp_all
  moreover from Cons.prems(1) have "\<forall>c \<in> set ls. c \<noteq> 37 \<and> \<not> is_line_terminator c" by simp
  ultimately show ?case using Cons.IH [of cs] s nlt np by simp
qed

lemma match_command_at_strip:
  assumes "command_literal lit" and "match_command_at lit (strip_from False s)"
  shows "match_command_at lit s"
proof -
  from assms(1) have ok: "\<forall>c \<in> set lit. c \<noteq> 37 \<and> \<not> is_line_terminator c"
    by (simp add: command_literal_def)
  from assms(2) have p: "prefix lit (strip_from False s)" by (simp add: match_command_at_def)
  from prefix_strip [OF ok p] word_at_strip [of "drop (length lit) s"] assms(2)
  show ?thesis by (simp add: match_command_at_def)
qed

lemma command_test_strip:
  assumes lit: "command_literal lit"
  shows "command_test lit (strip_from b s) \<Longrightarrow>
         \<exists>i < length s. \<not> scan_state b (take i s) \<and> match_command_at lit (drop i s)"
proof (induction s arbitrary: b)
  case Nil
  with lit show ?case by (simp add: match_command_at_def command_literal_def)
next
  case (Cons c cs)
  from lit have ne: "lit \<noteq> []" and hd_ok: "hd lit \<noteq> 37" "\<not> is_line_terminator (hd lit)"
    by (auto simp: command_literal_def)
  let ?b' = "if is_line_terminator c then False else b \<or> c = 37"
  have shift: "\<exists>i < length cs. \<not> scan_state ?b' (take i cs) \<and> match_command_at lit (drop i cs)
        \<Longrightarrow> ?case"
  proof -
    assume "\<exists>i < length cs. \<not> scan_state ?b' (take i cs) \<and> match_command_at lit (drop i cs)"
    then obtain i where "i < length cs" "\<not> scan_state ?b' (take i cs)" "match_command_at lit (drop i cs)"
      by blast
    then have "Suc i < length (c # cs) \<and> \<not> scan_state b (take (Suc i) (c # cs)) \<and>
               match_command_at lit (drop (Suc i) (c # cs))"
      by simp
    then show ?case by blast
  qed
  show ?case
  proof (cases "is_line_terminator c")
    case True
    with Cons.prems have "match_command_at lit (c # strip_from False cs) \<or> command_test lit (strip_from False cs)"
      by simp
    moreover have "\<not> match_command_at lit (c # strip_from False cs)"
      using True ne hd_ok by (cases lit) (auto simp: match_command_at_def)
    ultimately have "command_test lit (strip_from False cs)" by blast
    from Cons.IH [OF this] True show ?thesis by (intro shift) simp
  next
    case nlt: False
    show ?thesis
    proof (cases "b \<or> c = 37")
      case True
      with nlt Cons.prems have "command_test lit (strip_from True cs)" by simp
      from Cons.IH [OF this] nlt True show ?thesis by (intro shift) simp
    next
      case False
      with nlt Cons.prems
      have "match_command_at lit (strip_from False (c # cs)) \<or> command_test lit (strip_from False cs)"
        by simp
      then show ?thesis
      proof
        assume "match_command_at lit (strip_from False (c # cs))"
        then have "match_command_at lit (c # cs)" by (rule match_command_at_strip [OF lit])
        with False have "0 < length (c # cs) \<and> \<not> scan_state b (take 0 (c # cs)) \<and>
                         match_command_at lit (drop 0 (c # cs))"
          by simp
        then show ?thesis by blast
      next
        assume "command_test lit (strip_from False cs)"
        from Cons.IH [OF this] nlt False show ?thesis by (intro shift) simp
      qed
    qed
  qed
qed

lemma set_strip:
  "x \<in> set (strip_from b s) \<Longrightarrow>
   \<exists>i < length s. s ! i = x \<and> (is_line_terminator x \<or> (\<not> scan_state b (take i s) \<and> x \<noteq> 37))"
proof (induction s arbitrary: b)
  case Nil
  then show ?case by simp
next
  case (Cons c cs)
  let ?b' = "if is_line_terminator c then False else b \<or> c = 37"
  have shift: "x \<in> set (strip_from ?b' cs) \<Longrightarrow> ?case"
  proof -
    assume "x \<in> set (strip_from ?b' cs)"
    from Cons.IH [OF this] obtain i where "i < length cs" "cs ! i = x"
      "is_line_terminator x \<or> (\<not> scan_state ?b' (take i cs) \<and> x \<noteq> 37)"
      by blast
    then have "Suc i < length (c # cs) \<and> (c # cs) ! Suc i = x \<and>
               (is_line_terminator x \<or> (\<not> scan_state b (take (Suc i) (c # cs)) \<and> x \<noteq> 37))"
      by simp
    then show ?case by blast
  qed
  have here: "x = c \<Longrightarrow> is_line_terminator c \<or> (\<not> b \<and> c \<noteq> 37) \<Longrightarrow> ?case"
  proof -
    assume "x = c" "is_line_terminator c \<or> (\<not> b \<and> c \<noteq> 37)"
    then have "0 < length (c # cs) \<and> (c # cs) ! 0 = x \<and>
               (is_line_terminator x \<or> (\<not> scan_state b (take 0 (c # cs)) \<and> x \<noteq> 37))"
      by simp
    then show ?case by blast
  qed
  show ?case
  proof (cases "is_line_terminator c")
    case True
    with Cons.prems have "x = c \<or> x \<in> set (strip_from False cs)" by simp
    then show ?thesis
    proof
      assume "x = c"
      with True show ?thesis by (intro here) simp_all
    next
      assume "x \<in> set (strip_from False cs)"
      with True show ?thesis by (intro shift) simp
    qed
  next
    case nlt: False
    show ?thesis
    proof (cases "b \<or> c = 37")
      case True
      with nlt Cons.prems have "x \<in> set (strip_from True cs)" by simp
      with nlt True show ?thesis by (intro shift) simp
    next
      case False
      with nlt Cons.prems have "x = c \<or> x \<in> set (strip_from False cs)" by simp
      then show ?thesis
      proof
        assume "x = c"
        with False show ?thesis by (intro here) simp_all
      next
        assume "x \<in> set (strip_from False cs)"
        with nlt False show ?thesis by (intro shift) simp
      qed
    qed
  qed
qed


lemma check_requirements_loop_cause:
  "check_requirements_loop table w packages = Some r \<Longrightarrow>
   \<exists>req. (sel_engine r, req) \<in> set table \<and>
     ((\<exists>pkg \<in> set packages. pkg \<in> set (req_packages req)) \<or>
      (\<exists>cmd \<in> set (req_commands req). command_test cmd w) \<or>
      scripts_test (req_scripts req) w)"
proof (induction table w packages rule: check_requirements_loop.induct)
  case (1 w packages)
  then show ?case by simp
next
  case (2 eng req rest w packages)
  show ?case
  proof (cases "find (\<lambda>pkg. pkg \<in> set (req_packages req)) packages")
    case (Some pkg)
    then have "pkg \<in> set packages" "pkg \<in> set (req_packages req)"
      by (auto simp: find_Some_iff)
    moreover from Some "2.prems" have "sel_engine r = eng" by auto
    ultimately show ?thesis by auto
  next
    case nopkg: None
    show ?thesis
    proof (cases "find (\<lambda>cmd. command_test cmd w) (req_commands req)")
      case (Some cmd)
      then have "cmd \<in> set (req_commands req)" "command_test cmd w"
        by (auto simp: find_Some_iff)
      moreover from Some nopkg "2.prems" have "sel_engine r = eng" by auto
      ultimately show ?thesis by auto
    next
      case nocmd: None
      show ?thesis
      proof (cases "scripts_test (req_scripts req) w")
        case True
        moreover from True nopkg nocmd "2.prems" have "sel_engine r = eng" by auto
        ultimately show ?thesis by auto
      next
        case False
        with nopkg nocmd "2.prems" have "check_requirements_loop rest w packages = Some r" by simp
        from "2.IH" [OF nopkg nocmd False this] show ?thesis by auto
      qed
    qed
  qed
qed

lemma default_requirements_wellformed:
  assumes "(e, req) \<in> set getDefaultRequirements"
  shows "(\<forall>cmd \<in> set (req_commands req). command_literal cmd) \<and> plain_ranges (req_scripts req)"
  using assms
  by (auto simp: getDefaultRequirements_def xelatex_requirement_def lualatex_requirement_def
      command_literal_def plain_ranges_def in_ranges_def js_def is_line_terminator_def)

lemma default_requirements_unique:
  "(e, req) \<in> set getDefaultRequirements \<Longrightarrow> (e, req') \<in> set getDefaultRequirements \<Longrightarrow> req = req'"
  by (auto simp: getDefaultRequirements_def)

text \<open>
  C10. \<open>checkRequirements\<close> tests the command patterns and the script pattern on the
  source without its line comments. So, with the default requirement tables: when no
  package of the list is a requirement package of an engine, every match of one of its
  command patterns in the source starts inside a line comment, and every code unit of the
  source in one of its script ranges is inside a line comment, \<open>checkRequirements\<close>
  does not return that engine.
\<close>

theorem checkRequirements_ignores_comments:
  assumes table: "requirements sel = getDefaultRequirements"
    and entry: "(e, req) \<in> set getDefaultRequirements"
    and pkgs: "\<forall>pkg \<in> set packages. pkg \<notin> set (req_packages req)"
    and cmds: "\<forall>cmd \<in> set (req_commands req). \<forall>i < length source.
                 match_command_at cmd (drop i source) \<longrightarrow> in_line_comment source i"
    and scripts: "\<forall>i < length source.
                 in_ranges (req_scripts req) (source ! i) \<longrightarrow> in_line_comment source i"
  shows "\<forall>r. checkRequirements sel source packages = Some r \<longrightarrow> sel_engine r \<noteq> e"
proof (intro allI impI notI)
  fix r
  assume r: "checkRequirements sel source packages = Some r" and e: "sel_engine r = e"
  from r table have "check_requirements_loop getDefaultRequirements (strip_from False source) packages = Some r"
    by (simp add: checkRequirements_def stripComments_def)
  from check_requirements_loop_cause [OF this] e
  obtain req' where "(e, req') \<in> set getDefaultRequirements"
    and cause': "(\<exists>pkg \<in> set packages. pkg \<in> set (req_packages req')) \<or>
        (\<exists>cmd \<in> set (req_commands req'). command_test cmd (strip_from False source)) \<or>
        scripts_test (req_scripts req') (strip_from False source)"
    by blast
  with entry have "req' = req" by (simp add: default_requirements_unique)
  with cause' have cause: "(\<exists>pkg \<in> set packages. pkg \<in> set (req_packages req)) \<or>
        (\<exists>cmd \<in> set (req_commands req). command_test cmd (strip_from False source)) \<or>
        scripts_test (req_scripts req) (strip_from False source)"
    by simp
  from default_requirements_wellformed [OF entry]
  have lits: "\<forall>cmd \<in> set (req_commands req). command_literal cmd"
    and plain: "plain_ranges (req_scripts req)"
    by simp_all
  from cause show False
  proof (elim disjE bexE)
    fix pkg assume "pkg \<in> set packages" "pkg \<in> set (req_packages req)"
    with pkgs show False by blast
  next
    fix cmd assume cmd: "cmd \<in> set (req_commands req)"
      and test: "command_test cmd (strip_from False source)"
    from lits cmd have lit: "command_literal cmd" by blast
    from command_test_strip [OF lit test]
    obtain i where i: "i < length source" and st: "\<not> scan_state False (take i source)"
      and m: "match_command_at cmd (drop i source)"
      by blast
    from cmds cmd i m have c: "in_line_comment source i" by blast
    from m have "prefix cmd (drop i source)" by (simp add: match_command_at_def)
    with lit i have "source ! i = hd cmd"
      by (cases cmd) (auto simp: command_literal_def prefix_def hd_drop_conv_nth [symmetric])
    with lit have "source ! i \<noteq> 37" by (cases cmd) (auto simp: command_literal_def)
    from in_line_comment_scan_state [OF i c this] st show False by blast
  next
    assume "scripts_test (req_scripts req) (strip_from False source)"
    then obtain x where x: "x \<in> set (strip_from False source)" and rng: "in_ranges (req_scripts req) x"
      by (auto simp: scripts_test_def list_ex_iff)
    from plain rng have nlt: "\<not> is_line_terminator x" and np: "x \<noteq> 37"
      by (auto simp: plain_ranges_def is_line_terminator_def)
    from set_strip [OF x] nlt
    obtain i where i: "i < length source" and xi: "source ! i = x"
      and st: "\<not> scan_state False (take i source)"
      by blast
    from scripts i xi rng have c: "in_line_comment source i" by blast
    from in_line_comment_scan_state [OF i c] xi np st show False by blast
  qed
qed


definition commented_source :: jsstring where
  "commented_source = js ''%'' @ 92 # js ''directlua''"

theorem checkRequirements_ignores_comments_witness:
  "requirements selector0 = getDefaultRequirements \<and>
   (lualatex, lualatex_requirement) \<in> set getDefaultRequirements \<and>
   match_command_at (92 # js ''directlua'') (drop 1 commented_source) \<and>
   in_line_comment commented_source 1 \<and>
   checkRequirements selector0 commented_source (extractPackages commented_source)
     \<noteq> Some \<lparr> sel_engine = lualatex, sel_reason = CommandRequires (92 # js ''directlua'') lualatex,
               sel_confidence = High \<rparr>"
proof -
  have table: "requirements selector0 = getDefaultRequirements"
    by (simp add: selector0_def)
  have entry: "(lualatex, lualatex_requirement) \<in> set getDefaultRequirements"
    by (simp add: getDefaultRequirements_def)
  have len: "length commented_source = 11" and first: "commented_source ! 0 = 37"
    by (simp_all add: commented_source_def js_def)
  have nolt: "\<forall>c \<in> set commented_source. \<not> is_line_terminator c"
    by (simp add: commented_source_def js_def is_line_terminator_def)
  have inside: "\<forall>i < length commented_source. in_line_comment commented_source i"
  proof (intro allI impI)
    fix i assume i: "i < length commented_source"
    have "\<forall>k \<in> {0..i}. \<not> is_line_terminator (commented_source ! k)"
      using nolt i by auto
    with first show "in_line_comment commented_source i"
      unfolding in_line_comment_def by (intro bexI [of _ 0]) auto
  qed
  have pkgs: "\<forall>pkg \<in> set (extractPackages commented_source). pkg \<notin> set (req_packages lualatex_requirement)"
    by (simp add: extractPackages_def commented_source_def js_def match_all.simps
        match_package_at_def match_braces_def)
  have cmds: "\<forall>cmd \<in> set (req_commands lualatex_requirement). \<forall>i < length commented_source.
                match_command_at cmd (drop i commented_source) \<longrightarrow> in_line_comment commented_source i"
    using inside by blast
  have scripts: "\<forall>i < length commented_source.
                in_ranges (req_scripts lualatex_requirement) (commented_source ! i)
                  \<longrightarrow> in_line_comment commented_source i"
    using inside by blast
  have m: "match_command_at (92 # js ''directlua'') (drop 1 commented_source)"
    by (simp add: match_command_at_def commented_source_def js_def is_word_def)
  have c: "in_line_comment commented_source 1"
    using inside len by simp
  from checkRequirements_ignores_comments [OF table entry pkgs cmds scripts]
  have "checkRequirements selector0 commented_source (extractPackages commented_source)
     \<noteq> Some \<lparr> sel_engine = lualatex, sel_reason = CommandRequires (92 # js ''directlua'') lualatex,
               sel_confidence = High \<rparr>"
    by auto
  with table entry m c show ?thesis by blast
qed

text \<open>Without the percent sign the same command selects \<open>lualatex\<close>.\<close>

lemma checkRequirements_directlua:
  "checkRequirements selector0 (92 # js ''directlua'') [] =
     Some \<lparr> sel_engine = lualatex, sel_reason = CommandRequires (92 # js ''directlua'') lualatex,
            sel_confidence = High \<rparr>"
  by (simp add: checkRequirements_def selector0_def getDefaultRequirements_def
      xelatex_requirement_def lualatex_requirement_def stripComments_def js_def
      match_command_at_def scripts_test_def in_ranges_def is_word_def is_line_terminator_def)

section \<open>Bundle loader: \<open>mountBundle\<close>\<close>

record BundleFile =
  bf_path :: string
  bf_name :: string
  bf_start :: int
  bf_end :: int

record BundleMetadata =
  md_name :: string
  md_files :: "BundleFile list"
  md_totalSize :: int

text \<open>
  \<open>Uint8Array.prototype.slice(start, end)\<close>: a negative index counts from the end, both
  indices are clamped to the length, and the result is empty when the end is not after the
  start.
\<close>

definition js_slice :: "'a list \<Rightarrow> int \<Rightarrow> int \<Rightarrow> 'a list" where
  "js_slice xs start fin =
     (let len = int (length xs);
          k = (if start < 0 then max (len + start) 0 else min start len);
          final = (if fin < 0 then max (len + fin) 0 else min fin len)
      in take (nat (final - k)) (drop (nat k) xs))"

text \<open>\<open>dirPath.split('/').filter(p => p)\<close>\<close>

definition path_parts :: "string \<Rightarrow> string list" where
  "path_parts p = filter (\<lambda>part. part \<noteq> []) (split_on CHR ''/'' p)"

subsection \<open>The engine filesystem\<close>

text \<open>
  Modelled from the spec: the filesystem of the engine is an external collaborator
  (section 6: \<open>writeFile\<close>, \<open>mkdir\<close>, \<open>unlink\<close>, ``each possibly throwing on
  preexisting/missing targets''). It is an in-memory tree. A path names the node at its
  non-empty components, read from the root; \<open>.\<close> and \<open>..\<close> are not interpreted. The
  root is a directory. \<open>mkdir\<close> throws when the node exists or its parent is not a
  directory; \<open>writeFile\<close> creates or replaces a file and throws when the node is a
  directory or its parent is not a directory; \<open>unlink\<close> removes a file. The field
  \<open>fs_calls\<close> lists the calls received.
\<close>

datatype node = Dir | File bytes

datatype errno = EEXIST | ENOENT | ENOTDIR | EISDIR

datatype fs_call = Mkdir string | WriteFile string bytes | Unlink string

record FS =
  fs_nodes :: "string list \<rightharpoonup> node"
  fs_calls :: "fs_call list"

definition node_at :: "FS \<Rightarrow> string list \<Rightarrow> node option" where
  "node_at fs c = (if c = [] then Some Dir else fs_nodes fs c)"

definition fs_mkdir :: "string \<Rightarrow> FS \<Rightarrow> errno option \<times> FS" where
  "fs_mkdir p fs0 =
     (let fs = fs0\<lparr>fs_calls := fs_calls fs0 @ [Mkdir p]\<rparr>; c = path_parts p
      in case node_at fs c of
           Some n \<Rightarrow> (Some EEXIST, fs)
         | None \<Rightarrow>
             (case node_at fs (butlast c) of
                Some Dir \<Rightarrow> (None, fs\<lparr>fs_nodes := (fs_nodes fs)(c \<mapsto> Dir)\<rparr>)
              | Some (File d) \<Rightarrow> (Some ENOTDIR, fs)
              | None \<Rightarrow> (Some ENOENT, fs)))"

definition fs_writeFile :: "string \<Rightarrow> bytes \<Rightarrow> FS \<Rightarrow> errno option \<times> FS" where
  "fs_writeFile p fileData fs0 =
     (let fs = fs0\<lparr>fs_calls := fs_calls fs0 @ [WriteFile p fileData]\<rparr>; c = path_parts p
      in case node_at fs c of
           Some Dir \<Rightarrow> (Some EISDIR, fs)
         | _ \<Rightarrow>
             (case node_at fs (butlast c) of
                Some Dir \<Rightarrow> (None, fs\<lparr>fs_nodes := (fs_nodes fs)(c \<mapsto> File fileData)\<rparr>)
              | Some (File d) \<Rightarrow> (Some ENOTDIR, fs)
              | None \<Rightarrow> (Some ENOENT, fs)))"

definition fs_unlink :: "string \<Rightarrow> FS \<Rightarrow> errno option \<times> FS" where
  "fs_unlink p fs0 =
     (let fs = fs0\<lparr>fs_calls := fs_calls fs0 @ [Unlink p]\<rparr>; c = path_parts p
      in case node_at fs c of
           None \<Rightarrow> (Some ENOENT, fs)
         | Some Dir \<Rightarrow> (Some EISDIR, fs)
         | Some (File d) \<Rightarrow> (None, fs\<lparr>fs_nodes := (fs_nodes fs)(c := None)\<rparr>))"

subsection \<open>The loader\<close>

datatype loader_log =
    LogLoadingBundle string
  | LogLoadedBundle string nat
  | LogCouldNotWrite string errno
  | LogMounted string nat

datatype loader_error =
    ModuleNotSet
  | FailedToLoadMetadata string nat
  | FailedToLoadBundle string nat
  | FetchRejected
  | BodyRejected

text \<open>
  What the server answers for a URL: \<open>None\<close> when \<open>fetch\<close> rejects, else the status
  and the body. The body of a metadata file is the object it parses to, \<open>None\<close> when it is
  not JSON. The body of a data file is the payload it decompresses to, \<open>None\<close> when
  decompression fails; gzip itself is outside the model.
\<close>

record Server =
  meta_response :: "string \<Rightarrow> (nat \<times> BundleMetadata option) option"
  data_response :: "string \<Rightarrow> (nat \<times> bytes option) option"

text \<open>The fields of \<open>BundleLoader\<close>. The Emscripten module is \<open>null\<close> until set; it holds
  the filesystem.\<close>

record BundleLoader =
  loadedBundles :: "string list"
  bundleCache :: "string \<rightharpoonup> bytes"
  metadataCache :: "string \<rightharpoonup> BundleMetadata"
  bundleBaseUrl :: string
  cacheEnabled :: bool
  loaderLog :: "loader_log list"
  emscriptenModule :: "FS option"

definition loader_onLog :: "loader_log \<Rightarrow> BundleLoader \<Rightarrow> BundleLoader" where
  "loader_onLog e s = s\<lparr>loaderLog := loaderLog s @ [e]\<rparr>"

definition loadMetadata :: "Server \<Rightarrow> BundleLoader \<Rightarrow> string \<Rightarrow> (loader_error + BundleMetadata) \<times> BundleLoader" where
  "loadMetadata srv s bundleName =
     (case metadataCache s bundleName of
        Some m \<Rightarrow> (Inr m, s)
      | None \<Rightarrow>
          (case meta_response srv (bundleBaseUrl s @ ''/'' @ bundleName @ ''.meta.json'') of
             None \<Rightarrow> (Inl FetchRejected, s)
           | Some (status, b) \<Rightarrow>
               if \<not> response_ok status then (Inl (FailedToLoadMetadata bundleName status), s)
               else (case b of
                       None \<Rightarrow> (Inl BodyRejected, s)
                     | Some metadata \<Rightarrow>
                         (Inr metadata,
                          s\<lparr>metadataCache := (metadataCache s)(bundleName \<mapsto> metadata)\<rparr>))))"

definition loadBundleData :: "Server \<Rightarrow> BundleLoader \<Rightarrow> string \<Rightarrow> (loader_error + bytes) \<times> BundleLoader" where
  "loadBundleData srv s bundleName =
     (case bundleCache s bundleName of
        Some d \<Rightarrow> (Inr d, s)
      | None \<Rightarrow>
          (let s1 = loader_onLog (LogLoadingBundle bundleName) s
           in case data_response srv (bundleBaseUrl s @ ''/'' @ bundleName @ ''.data.gz'') of
                None \<Rightarrow> (Inl FetchRejected, s1)
              | Some (status, b) \<Rightarrow>
                  if \<not> response_ok status then (Inl (FailedToLoadBundle bundleName status), s1)
                  else (case b of
                          None \<Rightarrow> (Inl BodyRejected, s1)
                        | Some decompressedData \<Rightarrow>
                            (let s2 = (if cacheEnabled s1
                                       then s1\<lparr>bundleCache := (bundleCache s1)(bundleName \<mapsto> decompressedData)\<rparr>
                                       else s1)
                             in (Inr decompressedData,
                                 loader_onLog (LogLoadedBundle bundleName (length decompressedData)) s2)))))"

text \<open>\<open>ensureDirectory\<close>: \<open>mkdir\<close> on every prefix of the directory path, each error
  ignored.\<close>

fun ensure_loop :: "string \<Rightarrow> string list \<Rightarrow> FS \<Rightarrow> FS" where
  "ensure_loop current [] fs = fs"
| "ensure_loop current (part # parts) fs =
     ensure_loop (current @ ''/'' @ part) parts (snd (fs_mkdir (current @ ''/'' @ part) fs))"

definition ensureDirectory :: "FS \<Rightarrow> string \<Rightarrow> FS" where
  "ensureDirectory fs dirPath = ensure_loop [] (path_parts dirPath) fs"

definition fullPath :: "BundleFile \<Rightarrow> string" where
  "fullPath file = bf_path file @ ''/'' @ bf_name file"

text \<open>The body of the loop of \<open>mountBundle\<close> over \<open>metadata.files\<close>, on the filesystem and
  the log.\<close>

definition mountFile :: "bytes \<Rightarrow> BundleFile \<Rightarrow> FS \<times> loader_log list \<Rightarrow> FS \<times> loader_log list" where
  "mountFile dataView file st =
     (let fs1 = ensureDirectory (fst st) (bf_path file);
          fileData = js_slice dataView (bf_start file) (bf_end file)
      in case fs_writeFile (fullPath file) fileData fs1 of
           (None, fs2) \<Rightarrow> (fs2, snd st)
         | (Some e, fs2) \<Rightarrow>
             (fs2, if e \<noteq> EEXIST then snd st @ [LogCouldNotWrite (fullPath file) e] else snd st))"

text \<open>
  \<open>mountBundle\<close>. \<open>Promise.all\<close> starts both loads; each runs to its end, and the first
  error is the error of the call.
\<close>

definition mountBundle :: "Server \<Rightarrow> BundleLoader \<Rightarrow> string \<Rightarrow> (loader_error + unit) \<times> BundleLoader" where
  "mountBundle srv s bundleName =
     (if bundleName \<in> set (loadedBundles s) then (Inr (), s)
      else case emscriptenModule s of
             None \<Rightarrow> (Inl ModuleNotSet, s)
           | Some fs \<Rightarrow>
               (case loadMetadata srv s bundleName of
                  (rm, s1) \<Rightarrow>
                    (case loadBundleData srv s1 bundleName of
                       (rd, s2) \<Rightarrow>
                         (case (rm, rd) of
                            (Inl e, _) \<Rightarrow> (Inl e, s2)
                          | (Inr metadata, Inl e) \<Rightarrow> (Inl e, s2)
                          | (Inr metadata, Inr dataView) \<Rightarrow>
                              (case fold (mountFile dataView) (md_files metadata) (fs, loaderLog s2) of
                                 (fs', log') \<Rightarrow>
                                   (Inr (),
                                    s2\<lparr> emscriptenModule := Some fs',
                                        loadedBundles := set_add bundleName (loadedBundles s2),
                                        loaderLog := log' @ [LogMounted bundleName
                                                      (length (md_files metadata))] \<rparr>))))))"


subsection \<open>\<open>PackageManager.mountBundle\<close>\<close>

text \<open>The metadata of the package manager has more fields; \<open>mountBundle\<close> reads the files.\<close>

record PackageBundleMetadata =
  pm_name :: string
  pm_version :: string
  pm_size :: nat
  pm_packages :: "string list"
  pm_dependencies :: "string list"
  pm_files :: "BundleFile list"

text \<open>
  The body of its loop: \<open>ensureDirectory\<close>, which is the same loop as the loader's with
  every error ignored, then \<open>writeFile\<close>; when that throws, \<open>unlink\<close> and \<open>writeFile\<close>
  again; when either of these throws, a warning with the first error.
\<close>

definition pm_mountFile :: "bytes \<Rightarrow> BundleFile \<Rightarrow> FS \<times> loader_log list \<Rightarrow> FS \<times> loader_log list" where
  "pm_mountFile dataView file st =
     (let fs1 = ensureDirectory (fst st) (bf_path file);
          fileData = js_slice dataView (bf_start file) (bf_end file)
      in case fs_writeFile (fullPath file) fileData fs1 of
           (None, fs2) \<Rightarrow> (fs2, snd st)
         | (Some e, fs2) \<Rightarrow>
             (case fs_unlink (fullPath file) fs2 of
                (Some e2, fs3) \<Rightarrow> (fs3, snd st @ [LogCouldNotWrite (fullPath file) e])
              | (None, fs3) \<Rightarrow>
                  (case fs_writeFile (fullPath file) fileData fs3 of
                     (None, fs4) \<Rightarrow> (fs4, snd st)
                   | (Some e3, fs4) \<Rightarrow> (fs4, snd st @ [LogCouldNotWrite (fullPath file) e]))))"

definition pm_mountBundle :: "PackageBundleMetadata \<Rightarrow> bytes \<Rightarrow> FS \<times> loader_log list
    \<Rightarrow> FS \<times> loader_log list" where
  "pm_mountBundle metadata dataView st = fold (pm_mountFile dataView) (pm_files metadata) st"

subsection \<open>Properties of \<open>mountBundle\<close>\<close>

text \<open>The paths that \<open>ensureDirectory\<close> hands to \<open>mkdir\<close>.\<close>

fun cumulative :: "string \<Rightarrow> string list \<Rightarrow> string list" where
  "cumulative current [] = []"
| "cumulative current (part # parts) =
     (current @ ''/'' @ part) # cumulative (current @ ''/'' @ part) parts"

text \<open>The calls that one metadata entry causes.\<close>

definition file_calls :: "bytes \<Rightarrow> BundleFile \<Rightarrow> fs_call list" where
  "file_calls dataView file =
     map Mkdir (cumulative [] (path_parts (bf_path file))) @
     [WriteFile (fullPath file) (js_slice dataView (bf_start file) (bf_end file))]"

lemma fs_mkdir_calls [simp]: "fs_calls (snd (fs_mkdir p fs)) = fs_calls fs @ [Mkdir p]"
  by (simp add: fs_mkdir_def Let_def split: option.splits node.splits)

lemma fs_writeFile_calls [simp]: "fs_calls (snd (fs_writeFile p d fs)) = fs_calls fs @ [WriteFile p d]"
  by (simp add: fs_writeFile_def Let_def split: option.splits node.splits)

lemma ensure_loop_calls:
  "fs_calls (ensure_loop current parts fs) = fs_calls fs @ map Mkdir (cumulative current parts)"
  by (induction current parts fs rule: ensure_loop.induct) simp_all

lemma mountFile_calls:
  "fs_calls (fst (mountFile dataView file st)) = fs_calls (fst st) @ file_calls dataView file"
proof -
  let ?fs1 = "ensureDirectory (fst st) (bf_path file)"
  let ?w = "fs_writeFile (fullPath file) (js_slice dataView (bf_start file) (bf_end file)) ?fs1"
  have "fst (mountFile dataView file st) = snd ?w"
    by (simp add: mountFile_def Let_def split: prod.splits option.splits)
  then show ?thesis
    by (simp add: file_calls_def ensureDirectory_def ensure_loop_calls)
qed

lemma fold_mountFile_calls:
  "fs_calls (fst (fold (mountFile dataView) files st))
     = fs_calls (fst st) @ concat (map (file_calls dataView) files)"
  by (induction files arbitrary: st) (simp_all add: mountFile_calls)

lemma split_on_nonempty [simp]: "split_on sep s \<noteq> []"
  by (induction s) (auto split: list.splits)

lemma split_on_append:
  "split_on sep (a @ sep # b) = split_on sep a @ split_on sep b"
  by (induction a) (auto split: list.splits)

lemma split_on_no_sep: "part \<in> set (split_on sep s) \<Longrightarrow> sep \<notin> set part"
proof (induction s arbitrary: part)
  case Nil
  then show ?case by simp
next
  case (Cons c cs)
  obtain p ps where sp: "split_on sep cs = p # ps"
    using split_on_nonempty [of sep cs] by (cases "split_on sep cs") auto
  show ?case
  proof (cases "c = sep")
    case True
    with Cons show ?thesis by auto
  next
    case False
    with Cons.prems sp have "part = c # p \<or> part \<in> set ps" by simp
    then show ?thesis
    proof
      assume "part = c # p"
      moreover have "sep \<notin> set p" using Cons.IH [of p] sp by simp
      ultimately show ?thesis using False by simp
    next
      assume "part \<in> set ps"
      then show ?thesis using Cons.IH [of part] sp by simp
    qed
  qed
qed

lemma split_on_plain: "sep \<notin> set s \<Longrightarrow> split_on sep s = [s]"
  by (induction s) auto

lemma path_parts_append: "path_parts (a @ CHR ''/'' # b) = path_parts a @ path_parts b"
  by (simp add: path_parts_def split_on_append)

lemma path_parts_plain: "part \<noteq> [] \<Longrightarrow> CHR ''/'' \<notin> set part \<Longrightarrow> path_parts part = [part]"
  by (simp add: path_parts_def split_on_plain)

lemma path_parts_members: "part \<in> set (path_parts p) \<Longrightarrow> part \<noteq> [] \<and> CHR ''/'' \<notin> set part"
  by (auto simp: path_parts_def dest: split_on_no_sep)

lemma path_parts_Nil [simp]: "path_parts [] = []"
  by (simp add: path_parts_def)


lemma node_at_Nil [simp]: "node_at fs [] = Some Dir"
  by (simp add: node_at_def)

lemma node_at_calls [simp]: "node_at (fs\<lparr>fs_calls := cs\<rparr>) c = node_at fs c"
  by (simp add: node_at_def)

lemma node_at_nonempty: "c \<noteq> [] \<Longrightarrow> node_at fs c = fs_nodes fs c"
  by (simp add: node_at_def)

lemma fs_mkdir_nodes:
  assumes c: "path_parts p = base @ [part]"
    and parent: "node_at fs base = Some Dir"
    and nofile: "\<forall>d. node_at fs (base @ [part]) \<noteq> Some (File d)"
  shows "fs_nodes (snd (fs_mkdir p fs)) = (fs_nodes fs)(base @ [part] \<mapsto> Dir)"
proof (cases "node_at fs (base @ [part])")
  case None
  with c parent show ?thesis
    by (auto simp: fs_mkdir_def Let_def node_at_def split: if_splits)
next
  case (Some n)
  with nofile have n: "n = Dir" by (cases n) auto
  with Some have "fs_nodes fs (base @ [part]) = Some Dir" by (simp add: node_at_def)
  then have "(fs_nodes fs)(base @ [part] \<mapsto> Dir) = fs_nodes fs" by (rule map_upd_triv)
  with c Some show ?thesis
    by (simp add: fs_mkdir_def Let_def node_at_def)
qed

lemma ensure_loop_nodes:
  assumes "\<forall>part \<in> set parts. part \<noteq> [] \<and> CHR ''/'' \<notin> set part"
    and "path_parts current = base"
    and "node_at fs base = Some Dir"
    and "\<forall>q. prefix q parts \<longrightarrow> (\<forall>d. node_at fs (base @ q) \<noteq> Some (File d))"
  shows "fs_nodes (ensure_loop current parts fs) =
           (\<lambda>c. if \<exists>q. q \<noteq> [] \<and> prefix q parts \<and> c = base @ q then Some Dir else fs_nodes fs c)"
  using assms
proof (induction parts arbitrary: current base fs)
  case Nil
  show ?case by (auto simp: fun_eq_iff)
next
  case (Cons part parts)
  define cur where "cur = current @ ''/'' @ part"
  define fs1 where "fs1 = snd (fs_mkdir cur fs)"
  define base1 where "base1 = base @ [part]"
  have step: "ensure_loop current (part # parts) fs = ensure_loop cur parts fs1"
    by (simp add: cur_def fs1_def)
  from Cons.prems(1) have part: "part \<noteq> []" "CHR ''/'' \<notin> set part" by simp_all
  have pp: "path_parts cur = base @ [part]"
    using Cons.prems(2) part by (simp add: cur_def path_parts_append path_parts_plain)
  have nofile1: "\<forall>d. node_at fs (base @ [part]) \<noteq> Some (File d)"
    using Cons.prems(4) [rule_format, of "[part]"] by simp
  have n1: "fs_nodes fs1 = (fs_nodes fs)(base1 \<mapsto> Dir)"
    unfolding fs1_def base1_def by (rule fs_mkdir_nodes [OF pp Cons.prems(3) nofile1])
  have ne1: "base1 \<noteq> []" by (simp add: base1_def)
  have dir1: "node_at fs1 base1 = Some Dir"
    using ne1 by (simp add: node_at_def n1)
  have nofile: "\<forall>q. prefix q parts \<longrightarrow> (\<forall>d. node_at fs1 (base1 @ q) \<noteq> Some (File d))"
  proof (intro allI impI)
    fix q d assume q: "prefix q parts"
    have "node_at fs (base @ part # q) \<noteq> Some (File d)"
      using Cons.prems(4) [rule_format, of "part # q"] q by simp
    then show "node_at fs1 (base1 @ q) \<noteq> Some (File d)"
      by (auto simp: node_at_def n1 base1_def)
  qed
  have parts: "\<forall>part \<in> set parts. part \<noteq> [] \<and> CHR ''/'' \<notin> set part"
    using Cons.prems(1) by simp
  have pp1: "path_parts cur = base1" using pp by (simp add: base1_def)
  have IH: "fs_nodes (ensure_loop cur parts fs1) =
      (\<lambda>c. if \<exists>q. q \<noteq> [] \<and> prefix q parts \<and> c = base1 @ q then Some Dir else fs_nodes fs1 c)"
    by (rule Cons.IH [OF parts pp1 dir1 nofile])
  have split: "\<And>c. (\<exists>q. q \<noteq> [] \<and> prefix q (part # parts) \<and> c = base @ q) \<longleftrightarrow>
                    (c = base1 \<or> (\<exists>q. q \<noteq> [] \<and> prefix q parts \<and> c = base1 @ q))"
  proof
    fix c
    assume "\<exists>q. q \<noteq> [] \<and> prefix q (part # parts) \<and> c = base @ q"
    then obtain q where q: "q \<noteq> []" "prefix q (part # parts)" "c = base @ q" by blast
    then obtain zs where zs: "q = part # zs" "prefix zs parts"
      by (auto simp: prefix_Cons)
    show "c = base1 \<or> (\<exists>q. q \<noteq> [] \<and> prefix q parts \<and> c = base1 @ q)"
    proof (cases "zs = []")
      case True
      with zs q show ?thesis by (simp add: base1_def)
    next
      case False
      with zs q have "zs \<noteq> [] \<and> prefix zs parts \<and> c = base1 @ zs" by (simp add: base1_def)
      then show ?thesis by blast
    qed
  next
    fix c
    assume "c = base1 \<or> (\<exists>q. q \<noteq> [] \<and> prefix q parts \<and> c = base1 @ q)"
    then show "\<exists>q. q \<noteq> [] \<and> prefix q (part # parts) \<and> c = base @ q"
    proof
      assume "c = base1"
      then have "[part] \<noteq> [] \<and> prefix [part] (part # parts) \<and> c = base @ [part]"
        by (simp add: base1_def)
      then show ?thesis by blast
    next
      assume "\<exists>q. q \<noteq> [] \<and> prefix q parts \<and> c = base1 @ q"
      then obtain q where "q \<noteq> []" "prefix q parts" "c = base1 @ q" by blast
      then have "part # q \<noteq> [] \<and> prefix (part # q) (part # parts) \<and> c = base @ (part # q)"
        by (simp add: base1_def)
      then show ?thesis by blast
    qed
  qed
  show ?case
    unfolding step IH n1 split by (auto simp: fun_eq_iff)
qed

definition dir_parts :: "BundleFile \<Rightarrow> string list" where
  "dir_parts file = path_parts (bf_path file)"

definition full_parts :: "BundleFile \<Rightarrow> string list" where
  "full_parts file = path_parts (fullPath file)"

definition extent :: "bytes \<Rightarrow> BundleFile \<Rightarrow> bytes" where
  "extent dataView file = js_slice dataView (bf_start file) (bf_end file)"

definition plain_name :: "BundleFile \<Rightarrow> bool" where
  "plain_name file = (bf_name file \<noteq> [] \<and> CHR ''/'' \<notin> set (bf_name file))"

lemma full_parts_plain: "plain_name file \<Longrightarrow> full_parts file = dir_parts file @ [bf_name file]"
  by (simp add: full_parts_def dir_parts_def fullPath_def plain_name_def path_parts_append
      path_parts_plain)

lemma mountFile_nodes:
  assumes name: "plain_name file"
    and nofile: "\<forall>q. prefix q (dir_parts file) \<longrightarrow> (\<forall>d. node_at fs q \<noteq> Some (File d))"
    and nodir: "node_at fs (full_parts file) \<noteq> Some Dir"
  shows "snd (mountFile dataView file (fs, lg)) = lg"
    and "fs_nodes (fst (mountFile dataView file (fs, lg))) =
           (\<lambda>c. if c = full_parts file then Some (File (extent dataView file))
                 else if c \<noteq> [] \<and> prefix c (dir_parts file) then Some Dir
                 else fs_nodes fs c)"
proof -
  let ?fs1 = "ensureDirectory fs (bf_path file)"
  have full: "full_parts file = dir_parts file @ [bf_name file]"
    using name by (rule full_parts_plain)
  have parts: "\<forall>part \<in> set (dir_parts file). part \<noteq> [] \<and> CHR ''/'' \<notin> set part"
    by (auto simp: dir_parts_def dest: path_parts_members)
  have n1: "fs_nodes ?fs1 =
      (\<lambda>c. if \<exists>q. q \<noteq> [] \<and> prefix q (dir_parts file) \<and> c = [] @ q then Some Dir else fs_nodes fs c)"
    unfolding ensureDirectory_def dir_parts_def [symmetric]
    using nofile by (intro ensure_loop_nodes [OF parts]) simp_all
  then have n1': "fs_nodes ?fs1 = (\<lambda>c. if c \<noteq> [] \<and> prefix c (dir_parts file) then Some Dir else fs_nodes fs c)"
    by (auto simp: fun_eq_iff)
  have notprefix: "\<not> prefix (full_parts file) (dir_parts file)"
    using full by (auto dest: prefix_length_le)
  have at_full: "node_at ?fs1 (full_parts file) \<noteq> Some Dir"
    using nodir notprefix full by (simp add: node_at_def n1')
  have at_dir: "node_at ?fs1 (butlast (full_parts file)) = Some Dir"
    using full by (simp add: node_at_def n1')
  have w: "fs_writeFile (fullPath file) (extent dataView file) ?fs1 =
      (None, ?fs1\<lparr> fs_calls := fs_calls ?fs1 @ [WriteFile (fullPath file) (extent dataView file)],
                   fs_nodes := (fs_nodes ?fs1)(full_parts file \<mapsto> File (extent dataView file)) \<rparr>)"
  proof (cases "node_at ?fs1 (full_parts file)")
    case None
    with at_dir show ?thesis
      by (simp add: fs_writeFile_def Let_def full_parts_def [symmetric])
  next
    case (Some n)
    with at_full obtain d where "n = File d" by (cases n) auto
    with Some at_dir show ?thesis
      by (simp add: fs_writeFile_def Let_def full_parts_def [symmetric])
  qed
  show "snd (mountFile dataView file (fs, lg)) = lg"
    using w by (simp add: mountFile_def Let_def extent_def)
  show "fs_nodes (fst (mountFile dataView file (fs, lg))) =
           (\<lambda>c. if c = full_parts file then Some (File (extent dataView file))
                 else if c \<noteq> [] \<and> prefix c (dir_parts file) then Some Dir
                 else fs_nodes fs c)"
    using w by (auto simp: mountFile_def Let_def extent_def n1' fun_eq_iff)
qed


definition is_file :: "node option \<Rightarrow> bool" where
  "is_file n = (case n of Some (File d) \<Rightarrow> True | _ \<Rightarrow> False)"

text \<open>
  The metadata describes a tree that the filesystem can take: every name is one path
  component, no two entries have the same canonical path, no entry's file is a directory of
  another entry, and the filesystem has no file where a directory is needed and no
  directory where a file is to be written.
\<close>

definition mountable :: "FS \<Rightarrow> BundleFile list \<Rightarrow> bool" where
  "mountable fs files =
     ((\<forall>f \<in> set files. plain_name f) \<and>
      distinct (map full_parts files) \<and>
      (\<forall>f \<in> set files. \<forall>g \<in> set files. \<not> prefix (full_parts f) (dir_parts g)) \<and>
      (\<forall>f \<in> set files. \<forall>q \<in> set (prefixes (dir_parts f)). \<not> is_file (node_at fs q)) \<and>
      (\<forall>f \<in> set files. node_at fs (full_parts f) \<noteq> Some Dir))"

lemma is_file_iff: "is_file n \<longleftrightarrow> (\<exists>d. n = Some (File d))"
  by (auto simp: is_file_def split: option.splits node.splits)

lemma fold_mountFile_nodes:
  assumes "mountable fs files"
  shows "snd (fold (mountFile dataView) files (fs, lg)) = lg \<and>
         fs_nodes (fst (fold (mountFile dataView) files (fs, lg))) =
           (\<lambda>c. case find (\<lambda>f. full_parts f = c) files of
                   Some f \<Rightarrow> Some (File (extent dataView f))
                 | None \<Rightarrow> if c \<noteq> [] \<and> (\<exists>f \<in> set files. prefix c (dir_parts f)) then Some Dir
                           else fs_nodes fs c)"
  using assms
proof (induction files arbitrary: fs)
  case Nil
  show ?case by simp
next
  case (Cons f files)
  from Cons.prems have name: "plain_name f"
    and nofile: "\<forall>q. prefix q (dir_parts f) \<longrightarrow> (\<forall>d. node_at fs q \<noteq> Some (File d))"
    and nodir: "node_at fs (full_parts f) \<noteq> Some Dir"
    by (auto simp: mountable_def is_file_iff)
  obtain fs1 where fs1: "fs1 = fst (mountFile dataView f (fs, lg))" by simp
  from mountFile_nodes [OF name nofile nodir, of dataView lg]
  have lg1: "snd (mountFile dataView f (fs, lg)) = lg"
    and n1: "fs_nodes fs1 =
           (\<lambda>c. if c = full_parts f then Some (File (extent dataView f))
                 else if c \<noteq> [] \<and> prefix c (dir_parts f) then Some Dir
                 else fs_nodes fs c)"
    unfolding fs1 by simp_all
  have st1: "mountFile dataView f (fs, lg) = (fs1, lg)"
    using lg1 fs1 by (simp add: prod_eq_iff)
  have full_ne: "\<And>g. g \<in> set (f # files) \<Longrightarrow> full_parts g \<noteq> []"
    using Cons.prems by (auto simp: mountable_def full_parts_plain)
  have tree: "\<forall>a \<in> set (f # files). \<forall>b \<in> set (f # files). \<not> prefix (full_parts a) (dir_parts b)"
    using Cons.prems by (simp add: mountable_def)
  have "full_parts f \<notin> full_parts ` set files"
    using Cons.prems by (simp add: mountable_def)
  then have dist: "\<forall>g \<in> set files. full_parts g \<noteq> full_parts f"
    by (metis imageI)
  have m1: "mountable fs1 files"
    unfolding mountable_def
  proof (intro conjI ballI)
    fix g assume "g \<in> set files"
    then show "plain_name g" using Cons.prems by (simp add: mountable_def)
  next
    show "distinct (map full_parts files)" using Cons.prems by (simp add: mountable_def)
  next
    fix a b assume "a \<in> set files" "b \<in> set files"
    then show "\<not> prefix (full_parts a) (dir_parts b)" using tree by simp
  next
    fix g q assume g: "g \<in> set files" and q: "q \<in> set (prefixes (dir_parts g))"
    then have pq: "prefix q (dir_parts g)" by simp
    have old: "\<not> is_file (node_at fs q)"
      using Cons.prems g q by (simp add: mountable_def)
    have "q \<noteq> full_parts f"
      using tree g pq by auto
    then show "\<not> is_file (node_at fs1 q)"
      using old by (auto simp: node_at_def n1 is_file_def)
  next
    fix g assume g: "g \<in> set files"
    have old: "node_at fs (full_parts g) \<noteq> Some Dir"
      using Cons.prems g by (simp add: mountable_def)
    have "\<not> prefix (full_parts g) (dir_parts f)" using tree g by simp
    moreover have "full_parts g \<noteq> full_parts f" using dist g by simp
    ultimately show "node_at fs1 (full_parts g) \<noteq> Some Dir"
      using old by (auto simp: node_at_def n1 split: if_splits)
  qed
  from Cons.IH [OF m1]
  have IHlg: "snd (fold (mountFile dataView) files (fs1, lg)) = lg"
    and IHn: "fs_nodes (fst (fold (mountFile dataView) files (fs1, lg))) =
           (\<lambda>c. case find (\<lambda>f. full_parts f = c) files of
                   Some f \<Rightarrow> Some (File (extent dataView f))
                 | None \<Rightarrow> if c \<noteq> [] \<and> (\<exists>f \<in> set files. prefix c (dir_parts f)) then Some Dir
                           else fs_nodes fs1 c)"
    by simp_all
  have unfold: "fold (mountFile dataView) (f # files) (fs, lg) = fold (mountFile dataView) files (fs1, lg)"
    by (simp add: st1)
  have "fs_nodes (fst (fold (mountFile dataView) files (fs1, lg))) =
           (\<lambda>c. case find (\<lambda>f. full_parts f = c) (f # files) of
                   Some f \<Rightarrow> Some (File (extent dataView f))
                 | None \<Rightarrow> if c \<noteq> [] \<and> (\<exists>f \<in> set (f # files). prefix c (dir_parts f)) then Some Dir
                           else fs_nodes fs c)"
  proof (rule ext)
    fix c
    show "fs_nodes (fst (fold (mountFile dataView) files (fs1, lg))) c =
           (case find (\<lambda>f. full_parts f = c) (f # files) of
                   Some f \<Rightarrow> Some (File (extent dataView f))
                 | None \<Rightarrow> if c \<noteq> [] \<and> (\<exists>f \<in> set (f # files). prefix c (dir_parts f)) then Some Dir
                           else fs_nodes fs c)"
    proof (cases "full_parts f = c")
      case True
      have "find (\<lambda>g. full_parts g = c) files = None"
        using dist True by (auto simp: find_None_iff)
      moreover have "\<not> (\<exists>g \<in> set files. prefix c (dir_parts g))"
        using tree True by auto
      ultimately show ?thesis using True by (simp add: IHn n1)
    next
      case False
      then show ?thesis by (auto simp: IHn n1 split: option.splits)
    qed
  qed
  with IHlg unfold show ?case by simp
qed


lemma find_Some_member: "find P xs = Some x \<Longrightarrow> P x \<and> x \<in> set xs"
  by (induction xs) (auto split: if_splits)

lemma js_slice_in_range:
  assumes "0 \<le> a" "a \<le> b" "b \<le> int (length xs)"
  shows "js_slice xs a b = take (nat (b - a)) (drop (nat a) xs)"
    and "length (js_slice xs a b) = nat (b - a)"
  using assms by (auto simp: js_slice_def Let_def min_def max_def)

lemma mountBundle_unfold:
  assumes new: "bundleName \<notin> set (loadedBundles s)"
    and fs: "emscriptenModule s = Some fs"
    and meta: "loadMetadata srv s bundleName = (Inr metadata, s1)"
    and data: "loadBundleData srv s1 bundleName = (Inr dataView, s2)"
  shows "snd (mountBundle srv s bundleName) =
           s2\<lparr> emscriptenModule := Some (fst (fold (mountFile dataView) (md_files metadata) (fs, loaderLog s2))),
               loadedBundles := set_add bundleName (loadedBundles s2),
               loaderLog := snd (fold (mountFile dataView) (md_files metadata) (fs, loaderLog s2))
                            @ [LogMounted bundleName (length (md_files metadata))] \<rparr>"
  using assms by (simp add: mountBundle_def split: prod.splits)

text \<open>
  C2. When the bundle is not mounted yet and its metadata \<open>M\<close> and payload \<open>P\<close> load,
  \<open>mountBundle\<close> makes, for each file of \<open>M.files\<close> in order, the calls \<open>mkdir\<close> on every
  prefix of \<open>f.path\<close> and then \<open>writeFile\<close> with the path \<open>f.path + "/" + f.name\<close> and the
  bytes \<open>P.slice(f.start, f.end)\<close>, and no other call. On a filesystem that can take the
  tree of \<open>M\<close>, it leaves at each of these paths the file with exactly these bytes, below
  directories that exist. For offsets within the payload, \<open>P.slice(f.start, f.end)\<close> is
  the \<open>f.end - f.start\<close> bytes of \<open>P\<close> from position \<open>f.start\<close>.
\<close>

theorem mountBundle_writes_extents:
  assumes new: "bundleName \<notin> set (loadedBundles s)"
    and fs: "emscriptenModule s = Some fs"
    and meta: "loadMetadata srv s bundleName = (Inr metadata, s1)"
    and data: "loadBundleData srv s1 bundleName = (Inr dataView, s2)"
  shows "(\<exists>fs'. emscriptenModule (snd (mountBundle srv s bundleName)) = Some fs' \<and>
           fs_calls fs' = fs_calls fs @ concat (map (file_calls dataView) (md_files metadata)) \<and>
           (mountable fs (md_files metadata) \<longrightarrow>
              (\<forall>file \<in> set (md_files metadata).
                 node_at fs' (path_parts (fullPath file))
                   = Some (File (js_slice dataView (bf_start file) (bf_end file))) \<and>
                 (\<forall>q \<in> set (prefixes (path_parts (bf_path file))). node_at fs' q = Some Dir)))) \<and>
         (\<forall>file \<in> set (md_files metadata).
            0 \<le> bf_start file \<and> bf_start file \<le> bf_end file \<and> bf_end file \<le> int (length dataView) \<longrightarrow>
            js_slice dataView (bf_start file) (bf_end file)
              = take (nat (bf_end file - bf_start file)) (drop (nat (bf_start file)) dataView))"
proof -
  let ?files = "md_files metadata"
  let ?fs' = "fst (fold (mountFile dataView) ?files (fs, loaderLog s2))"
  have m: "emscriptenModule (snd (mountBundle srv s bundleName)) = Some ?fs'"
    by (simp add: mountBundle_unfold [OF assms])
  have calls: "fs_calls ?fs' = fs_calls fs @ concat (map (file_calls dataView) ?files)"
    by (simp add: fold_mountFile_calls)
  have state: "\<forall>file \<in> set ?files.
                 node_at ?fs' (path_parts (fullPath file))
                   = Some (File (js_slice dataView (bf_start file) (bf_end file))) \<and>
                 (\<forall>q \<in> set (prefixes (path_parts (bf_path file))). node_at ?fs' q = Some Dir)"
    if mt: "mountable fs ?files"
  proof
    fix f assume fin: "f \<in> set ?files"
    from fold_mountFile_nodes [OF mt, of dataView "loaderLog s2"]
    have n: "fs_nodes ?fs' =
           (\<lambda>c. case find (\<lambda>f. full_parts f = c) ?files of
                   Some f \<Rightarrow> Some (File (extent dataView f))
                 | None \<Rightarrow> if c \<noteq> [] \<and> (\<exists>f \<in> set ?files. prefix c (dir_parts f)) then Some Dir
                           else fs_nodes fs c)"
      by simp
    from mt have inj: "inj_on full_parts (set ?files)"
      by (simp add: mountable_def distinct_map)
    from mt fin have ne: "full_parts f \<noteq> []"
      by (auto simp: mountable_def full_parts_plain)
    obtain g where g: "find (\<lambda>h. full_parts h = full_parts f) ?files = Some g"
      using fin by (cases "find (\<lambda>h. full_parts h = full_parts f) ?files")
        (auto simp: find_None_iff)
    then have "g \<in> set ?files" "full_parts g = full_parts f"
      by (auto dest: find_Some_member)
    with inj fin have "g = f" by (auto dest: inj_onD)
    with g ne n have a: "node_at ?fs' (full_parts f) = Some (File (extent dataView f))"
      by (simp add: node_at_def)
    have b: "node_at ?fs' q = Some Dir" if q: "q \<in> set (prefixes (dir_parts f))" for q
    proof (cases "q = []")
      case True
      then show ?thesis by simp
    next
      case False
      from q have pq: "prefix q (dir_parts f)" by simp
      have "find (\<lambda>h. full_parts h = q) ?files = None"
        using mt fin pq by (auto simp: mountable_def find_None_iff)
      with False pq fin n show ?thesis by (auto simp: node_at_def)
    qed
    from a b show "node_at ?fs' (path_parts (fullPath f))
                   = Some (File (js_slice dataView (bf_start f) (bf_end f))) \<and>
                 (\<forall>q \<in> set (prefixes (path_parts (bf_path f))). node_at ?fs' q = Some Dir)"
      by (simp add: full_parts_def dir_parts_def extent_def)
  qed
  have range: "\<forall>file \<in> set (md_files metadata).
            0 \<le> bf_start file \<and> bf_start file \<le> bf_end file \<and> bf_end file \<le> int (length dataView) \<longrightarrow>
            js_slice dataView (bf_start file) (bf_end file)
              = take (nat (bf_end file - bf_start file)) (drop (nat (bf_start file)) dataView)"
    by (simp add: js_slice_in_range)
  from m calls state have "\<exists>fs'. emscriptenModule (snd (mountBundle srv s bundleName)) = Some fs' \<and>
           fs_calls fs' = fs_calls fs @ concat (map (file_calls dataView) (md_files metadata)) \<and>
           (mountable fs (md_files metadata) \<longrightarrow>
              (\<forall>file \<in> set (md_files metadata).
                 node_at fs' (path_parts (fullPath file))
                   = Some (File (js_slice dataView (bf_start file) (bf_end file))) \<and>
                 (\<forall>q \<in> set (prefixes (path_parts (bf_path file))). node_at fs' q = Some Dir)))"
    by blast
  with range show ?thesis by blast
qed


definition fs_empty :: FS where
  "fs_empty = \<lparr> fs_nodes = Map.empty, fs_calls = [] \<rparr>"

definition loader0 :: BundleLoader where
  "loader0 = \<lparr> loadedBundles = [], bundleCache = Map.empty, metadataCache = Map.empty,
     bundleBaseUrl = ''bundles'', cacheEnabled = True, loaderLog = [],
     emscriptenModule = Some fs_empty \<rparr>"

definition local_metadata :: BundleMetadata where
  "local_metadata = \<lparr> md_name = ''local'',
     md_files = [\<lparr> bf_path = ''/texlive/a'', bf_name = ''x.sty'', bf_start = 0, bf_end = 2 \<rparr>,
                 \<lparr> bf_path = ''/tmp'', bf_name = ''y.sty'', bf_start = 2, bf_end = 3 \<rparr>],
     md_totalSize = 3 \<rparr>"

definition local_server :: Server where
  "local_server = \<lparr> meta_response = (\<lambda>url. Some (200, Some local_metadata)),
     data_response = (\<lambda>url. Some (200, Some [1, 2, 3])) \<rparr>"

lemma local_loads:
  "loadMetadata local_server loader0 ''local'' =
     (Inr local_metadata, loader0\<lparr>metadataCache := [''local'' \<mapsto> local_metadata]\<rparr>)"
  "loadBundleData local_server (loader0\<lparr>metadataCache := [''local'' \<mapsto> local_metadata]\<rparr>) ''local'' =
     (Inr [1, 2, 3],
      loader0\<lparr> metadataCache := [''local'' \<mapsto> local_metadata],
               bundleCache := [''local'' \<mapsto> [1, 2, 3]],
               loaderLog := [LogLoadingBundle ''local'', LogLoadedBundle ''local'' 3] \<rparr>)"
  by (simp_all add: loadMetadata_def loadBundleData_def local_server_def loader0_def response_ok_def
      loader_onLog_def Let_def)

lemma local_parts:
  "path_parts ''/texlive/a'' = [''texlive'', ''a'']"
  "path_parts ''/tmp'' = [''tmp'']"
  "path_parts ''/texlive/a/x.sty'' = [''texlive'', ''a'', ''x.sty'']"
  "path_parts ''/tmp/y.sty'' = [''tmp'', ''y.sty'']"
  by (simp_all add: path_parts_def)

lemma local_mountable: "mountable fs_empty (md_files local_metadata)"
  by (simp add: mountable_def local_metadata_def plain_name_def full_parts_def dir_parts_def
      fullPath_def local_parts node_at_def fs_empty_def is_file_def)

theorem mountBundle_writes_extents_witness:
  "''local'' \<notin> set (loadedBundles loader0) \<and>
   emscriptenModule loader0 = Some fs_empty \<and>
   mountable fs_empty (md_files local_metadata) \<and>
   (\<exists>fs'. emscriptenModule (snd (mountBundle local_server loader0 ''local'')) = Some fs' \<and>
      fs_calls fs' = [Mkdir ''/texlive'', Mkdir ''/texlive/a'', WriteFile ''/texlive/a/x.sty'' [1, 2],
                      Mkdir ''/tmp'', WriteFile ''/tmp/y.sty'' [3]] \<and>
      node_at fs' [''texlive'', ''a'', ''x.sty''] = Some (File [1, 2]) \<and>
      node_at fs' [''texlive'', ''a''] = Some Dir \<and>
      node_at fs' [''tmp'', ''y.sty''] = Some (File [3]))"
proof -
  have new: "''local'' \<notin> set (loadedBundles loader0)"
    and fs: "emscriptenModule loader0 = Some fs_empty"
    by (simp_all add: loader0_def)
  from mountBundle_writes_extents [OF new fs local_loads]
  obtain fs' where m: "emscriptenModule (snd (mountBundle local_server loader0 ''local'')) = Some fs'"
    and calls: "fs_calls fs' = fs_calls fs_empty @ concat (map (file_calls [1, 2, 3]) (md_files local_metadata))"
    and state: "mountable fs_empty (md_files local_metadata) \<longrightarrow>
              (\<forall>file \<in> set (md_files local_metadata).
                 node_at fs' (path_parts (fullPath file))
                   = Some (File (js_slice [1, 2, 3] (bf_start file) (bf_end file))) \<and>
                 (\<forall>q \<in> set (prefixes (path_parts (bf_path file))). node_at fs' q = Some Dir))"
    by blast
  have c: "fs_calls fs' = [Mkdir ''/texlive'', Mkdir ''/texlive/a'', WriteFile ''/texlive/a/x.sty'' [1, 2],
                      Mkdir ''/tmp'', WriteFile ''/tmp/y.sty'' [3]]"
    using calls
    by (simp add: fs_empty_def local_metadata_def file_calls_def local_parts fullPath_def js_slice_def)
  from state local_mountable
  have n: "node_at fs' [''texlive'', ''a'', ''x.sty''] = Some (File [1, 2])"
      "node_at fs' [''texlive'', ''a''] = Some Dir"
      "node_at fs' [''tmp'', ''y.sty''] = Some (File [3])"
    by (simp_all add: local_metadata_def fullPath_def local_parts js_slice_def)
  from new fs local_mountable m c n show ?thesis by blast
qed


text \<open>The paths of the \<open>writeFile\<close> calls among the calls.\<close>

fun written_paths :: "fs_call list \<Rightarrow> string list" where
  "written_paths [] = []"
| "written_paths (Mkdir p # cs) = written_paths cs"
| "written_paths (WriteFile p d # cs) = p # written_paths cs"
| "written_paths (Unlink p # cs) = written_paths cs"

definition is_write_warning :: "loader_log \<Rightarrow> bool" where
  "is_write_warning e = (case e of LogCouldNotWrite p err \<Rightarrow> True | _ \<Rightarrow> False)"

lemma written_paths_append [simp]: "written_paths (xs @ ys) = written_paths xs @ written_paths ys"
  by (induction xs rule: written_paths.induct) simp_all

lemma written_paths_mkdirs [simp]: "written_paths (map Mkdir ps) = []"
  by (induction ps) simp_all

lemma written_paths_file_calls: "written_paths (file_calls dataView file) = [fullPath file]"
  by (simp add: file_calls_def)

lemma written_paths_concat:
  "written_paths (concat (map (file_calls dataView) files)) = map fullPath files"
  by (induction files) (simp_all add: written_paths_file_calls)

lemma fs_unlink_calls [simp]: "fs_calls (snd (fs_unlink p fs)) = fs_calls fs @ [Unlink p]"
  by (simp add: fs_unlink_def Let_def split: option.splits node.splits)

lemma mountFile_log:
  "\<exists>ws. snd (mountFile dataView file st) = snd st @ ws \<and> (\<forall>w \<in> set ws. is_write_warning w)"
  by (auto simp: mountFile_def Let_def is_write_warning_def split: prod.splits option.splits)

lemma fold_mountFile_log:
  "\<exists>ws. snd (fold (mountFile dataView) files st) = snd st @ ws \<and> (\<forall>w \<in> set ws. is_write_warning w)"
proof (induction files arbitrary: st)
  case Nil
  show ?case by simp
next
  case (Cons f files)
  from mountFile_log [of dataView f st]
  obtain ws1 where 1: "snd (mountFile dataView f st) = snd st @ ws1" "\<forall>w \<in> set ws1. is_write_warning w"
    by blast
  from Cons.IH [of "mountFile dataView f st"]
  obtain ws2 where 2: "snd (fold (mountFile dataView) files (mountFile dataView f st))
                         = snd (mountFile dataView f st) @ ws2" "\<forall>w \<in> set ws2. is_write_warning w"
    by blast
  from 1 2 have "snd (fold (mountFile dataView) (f # files) st) = snd st @ (ws1 @ ws2) \<and>
                 (\<forall>w \<in> set (ws1 @ ws2). is_write_warning w)"
    by auto
  then show ?case by blast
qed

lemma pm_mountFile_written:
  "set (written_paths (fs_calls (fst (pm_mountFile dataView file st))))
     = set (written_paths (fs_calls (fst st))) \<union> {fullPath file}"
proof -
  let ?fs1 = "ensureDirectory (fst st) (bf_path file)"
  let ?d = "js_slice dataView (bf_start file) (bf_end file)"
  have e: "written_paths (fs_calls ?fs1) = written_paths (fs_calls (fst st))"
    by (simp add: ensureDirectory_def ensure_loop_calls)
  obtain r2 fs2 where w: "fs_writeFile (fullPath file) ?d ?fs1 = (r2, fs2)" by force
  then have c2: "fs_calls fs2 = fs_calls ?fs1 @ [WriteFile (fullPath file) ?d]"
    using fs_writeFile_calls [of "fullPath file" ?d ?fs1] by simp
  obtain r3 fs3 where u: "fs_unlink (fullPath file) fs2 = (r3, fs3)" by force
  then have c3: "fs_calls fs3 = fs_calls fs2 @ [Unlink (fullPath file)]"
    using fs_unlink_calls [of "fullPath file" fs2] by simp
  obtain r4 fs4 where w2: "fs_writeFile (fullPath file) ?d fs3 = (r4, fs4)" by force
  then have c4: "fs_calls fs4 = fs_calls fs3 @ [WriteFile (fullPath file) ?d]"
    using fs_writeFile_calls [of "fullPath file" ?d fs3] by simp
  have "fst (pm_mountFile dataView file st) = fs2 \<or> fst (pm_mountFile dataView file st) = fs3
        \<or> fst (pm_mountFile dataView file st) = fs4"
    using w u w2 by (auto simp: pm_mountFile_def Let_def split: option.splits)
  then show ?thesis
    using e c2 c3 c4 by auto
qed

lemma pm_mountBundle_written:
  "set (written_paths (fs_calls (fst (pm_mountBundle metadata dataView st))))
     = set (written_paths (fs_calls (fst st))) \<union> fullPath ` set (pm_files metadata)"
proof -
  have "set (written_paths (fs_calls (fst (fold (pm_mountFile dataView) files st))))
     = set (written_paths (fs_calls (fst st))) \<union> fullPath ` set files" for files
    by (induction files arbitrary: st) (auto simp: pm_mountFile_written)
  then show ?thesis by (simp add: pm_mountBundle_def)
qed





section \<open>Concurrent calls of \<open>loadBundle\<close>\<close>

text \<open>
  An \<open>async\<close> function runs without interruption from its call to its first \<open>await\<close>
  and from one \<open>await\<close> to the next; between these segments other code of the same
  thread may run. A call is modelled by its segments: the call itself returns the task
  suspended at the first \<open>await\<close> (or settled), and each resumption runs the task to its
  next \<open>await\<close>. A schedule is a list of calls and resumptions.
\<close>

subsection \<open>\<open>BundleManager.loadBundle\<close>\<close>

datatype manager_log = LogFromOPFS string | LogFetchingBundle string

datatype load_error = LoadFailed string nat | FetchFailed | DecompressFailed

text \<open>What the server answers for a bundle URL: nothing when \<open>fetch\<close> rejects, else the
  status, the compressed body and what the body decompresses to (\<open>None\<close> when
  decompression fails).\<close>

datatype bundle_response = NoResponse | BundleResponse nat bytes "bytes option"

text \<open>
  The fields of \<open>BundleManager\<close> that \<open>loadBundle\<close> uses, with the stores around it.
  Modelled from the spec: \<open>storage.js\<close> is not among the sources; \<open>getBundleFromOPFS\<close>
  and \<open>saveBundleToOPFS\<close> read and write the map \<open>opfsBundles\<close> (the reserved entries
  \<open>bundle:<name>\<close> of the blob store). \<open>fetched\<close> lists the URLs handed to \<open>fetch\<close>.
\<close>

record BundleStore =
  bundleBase :: string
  memCache :: "string \<rightharpoonup> bytes"
  opfsBundles :: "string \<rightharpoonup> bytes"
  bytesDownloaded :: nat
  cacheHitCount :: nat
  managerLog :: "manager_log list"
  fetched :: "string list"

text \<open>A call of \<open>loadBundle\<close>: suspended at one of its four \<open>await\<close>s, or settled.\<close>

datatype load_task =
    AwaitOPFS string
  | AwaitFetch string
  | AwaitArrayBuffer string bytes "bytes option"
  | AwaitDecompress string "bytes option"
  | Resolved bytes
  | Rejected load_error

definition bundleUrl :: "BundleStore \<Rightarrow> string \<Rightarrow> string" where
  "bundleUrl w bundleName = bundleBase w @ ''/'' @ bundleName @ ''.data.gz''"

text \<open>From the call to \<open>await getBundleFromOPFS(bundleName)\<close>.\<close>

definition loadBundle_call :: "BundleStore \<Rightarrow> string \<Rightarrow> load_task \<times> BundleStore" where
  "loadBundle_call w bundleName =
     (case memCache w bundleName of
        Some d \<Rightarrow> (Resolved d, w)
      | None \<Rightarrow> (AwaitOPFS bundleName, w))"

text \<open>From one \<open>await\<close> to the next.\<close>

fun loadBundle_resume :: "(string \<Rightarrow> bundle_response) \<Rightarrow> BundleStore \<Rightarrow> load_task
    \<Rightarrow> load_task \<times> BundleStore" where
  "loadBundle_resume srv w (AwaitOPFS bundleName) =
     (case opfsBundles w bundleName of
        Some cached \<Rightarrow>
          (Resolved cached,
           w\<lparr> managerLog := managerLog w @ [LogFromOPFS bundleName],
               memCache := (memCache w)(bundleName \<mapsto> cached),
               cacheHitCount := cacheHitCount w + 1 \<rparr>)
      | None \<Rightarrow>
          (AwaitFetch bundleName,
           w\<lparr> managerLog := managerLog w @ [LogFetchingBundle bundleName],
               fetched := fetched w @ [bundleUrl w bundleName] \<rparr>))"
| "loadBundle_resume srv w (AwaitFetch bundleName) =
     (case srv (bundleUrl w bundleName) of
        NoResponse \<Rightarrow> (Rejected FetchFailed, w)
      | BundleResponse status compressed decompressed \<Rightarrow>
          if \<not> response_ok status then (Rejected (LoadFailed bundleName status), w)
          else (AwaitArrayBuffer bundleName compressed decompressed, w))"
| "loadBundle_resume srv w (AwaitArrayBuffer bundleName compressed decompressed) =
     (AwaitDecompress bundleName decompressed,
      w\<lparr> bytesDownloaded := bytesDownloaded w + length compressed \<rparr>)"
| "loadBundle_resume srv w (AwaitDecompress bundleName decompressed) =
     (case decompressed of
        None \<Rightarrow> (Rejected DecompressFailed, w)
      | Some d \<Rightarrow>
          (Resolved d,
           w\<lparr> memCache := (memCache w)(bundleName \<mapsto> d),
               opfsBundles := (opfsBundles w)(bundleName \<mapsto> d) \<rparr>))"
| "loadBundle_resume srv w (Resolved d) = (Resolved d, w)"
| "loadBundle_resume srv w (Rejected e) = (Rejected e, w)"

datatype event = Call string | Resume nat

fun run :: "(string \<Rightarrow> bundle_response) \<Rightarrow> event list \<Rightarrow> BundleStore \<times> load_task list
    \<Rightarrow> BundleStore \<times> load_task list" where
  "run srv [] st = st"
| "run srv (Call bundleName # es) (w, tasks) =
     (case loadBundle_call w bundleName of
        (t, w') \<Rightarrow> run srv es (w', tasks @ [t]))"
| "run srv (Resume i # es) (w, tasks) =
     (if i < length tasks
      then (case loadBundle_resume srv w (tasks ! i) of
              (t, w') \<Rightarrow> run srv es (w', tasks[i := t]))
      else run srv es (w, tasks))"

text \<open>A manager with nothing cached, in memory or in the blob store.\<close>

definition cold_store :: "string \<Rightarrow> BundleStore" where
  "cold_store base = \<lparr> bundleBase = base, memCache = Map.empty, opfsBundles = Map.empty,
     bytesDownloaded = 0, cacheHitCount = 0, managerLog = [], fetched = [] \<rparr>"

text \<open>
  C3. \<open>BundleManager.loadBundle\<close> keeps no record of the loads in flight. Two callers
  ask for the same bundle while nothing is cached: the second call is made while the first
  waits for the blob store; when both have been resumed, \<open>fetch\<close> has been called twice
  with the URL of the bundle, and each call goes on to wait for its own answer.
\<close>

theorem loadBundle_concurrent_fetches_twice:
  "run srv [Call bundleName, Call bundleName, Resume 0, Resume 1] (cold_store base, []) =
     ((cold_store base)\<lparr>
         managerLog := [LogFetchingBundle bundleName, LogFetchingBundle bundleName],
         fetched := [base @ ''/'' @ bundleName @ ''.data.gz'',
                     base @ ''/'' @ bundleName @ ''.data.gz''] \<rparr>,
      [AwaitFetch bundleName, AwaitFetch bundleName])"
  by (simp add: loadBundle_call_def cold_store_def bundleUrl_def)


subsection \<open>\<open>PackageManager.loadBundle\<close>\<close>

definition BUNDLE_DEPENDENCIES :: "(string \<times> string list) list" where
  "BUNDLE_DEPENDENCIES =
     [(''core'', []),
      (''math'', [''core'']),
      (''graphics'', [''core'']),
      (''tikz'', [''core'', ''graphics'']),
      (''tables'', [''core'']),
      (''bibliography'', [''core'']),
      (''fonts-basic'', [''core'']),
      (''fonts-extra'', [''core'', ''fonts-basic'']),
      (''code'', [''core'']),
      (''beamer'', [''core'', ''graphics'', ''tikz'']),
      (''science'', [''core'', ''math'']),
      (''layout'', [''core'']),
      (''hyperref'', [''core'']),
      (''utilities'', [''core'']),
      (''languages'', [''core''])]"

text \<open>\<open>BUNDLE_DEPENDENCIES[name] || []\<close>\<close>

definition dependenciesOf :: "string \<Rightarrow> string list" where
  "dependenciesOf name = (case map_of BUNDLE_DEPENDENCIES name of None \<Rightarrow> [] | Some ds \<Rightarrow> ds)"

text \<open>
  The state of the promise that a call of \<open>_loadBundle\<close> returns, and the state of a call
  of \<open>loadBundle\<close>: returned, thrown, returning the promise found in \<open>loadingBundles\<close>,
  or waiting at \<open>await loadPromise\<close> for the promise it has registered.
\<close>

datatype promise_state = Pending | Fulfilled | Failed

datatype load_call = Returned | Threw | Joined nat | Awaiting string nat

text \<open>
  The fields of \<open>PackageManager\<close> that \<open>loadBundle\<close> uses. \<open>loadPromises\<close> lists the
  calls of \<open>_loadBundle\<close> made so far, each with its bundle and the state of its promise; a
  promise is named by its position. \<open>loadCalls\<close> lists the calls of \<open>loadBundle\<close>.
\<close>

record PackageManager =
  pm_loadedBundles :: "string list"
  loadingBundles :: "string \<rightharpoonup> nat"
  loadPromises :: "(string \<times> promise_state) list"
  loadCalls :: "load_call list"
  onBundleLoad :: "string list"

text \<open>The depth of a bundle in the dependency table, for the termination of the calls that
  \<open>_loadBundle\<close> makes for the dependencies.\<close>

definition bundle_depth :: "string \<Rightarrow> nat" where
  "bundle_depth name =
     (if name = ''beamer'' then 3
      else if name \<in> {''tikz'', ''fonts-extra'', ''science''} then 2
      else if name = ''core'' then 0
      else 1)"

lemma dependency_depth: "d \<in> set (dependenciesOf name) \<Longrightarrow> bundle_depth d < bundle_depth name"
  by (auto simp: dependenciesOf_def BUNDLE_DEPENDENCIES_def bundle_depth_def split: if_splits)

text \<open>
  \<open>loadBundle\<close> from its call to its first \<open>await\<close>. When the bundle is neither loaded
  nor loading, \<open>_loadBundle\<close> runs to its own first \<open>await\<close>, which is after it has
  called \<open>loadBundle\<close> for each dependency; then its promise is registered in
  \<open>loadingBundles\<close>.
\<close>

function pm_loadBundle :: "string \<Rightarrow> PackageManager \<Rightarrow> PackageManager" where
  "pm_loadBundle name s =
     (if name \<in> set (pm_loadedBundles s) then s\<lparr>loadCalls := loadCalls s @ [Returned]\<rparr>
      else case loadingBundles s name of
             Some p \<Rightarrow> s\<lparr>loadCalls := loadCalls s @ [Joined p]\<rparr>
           | None \<Rightarrow>
               (let s1 = fold pm_loadBundle (dependenciesOf name) s;
                    p = length (loadPromises s1)
                in s1\<lparr> loadPromises := loadPromises s1 @ [(name, Pending)],
                       loadingBundles := (loadingBundles s1)(name \<mapsto> p),
                       loadCalls := loadCalls s1 @ [Awaiting name p] \<rparr>))"
  by pat_completeness auto
termination
  by (relation "measure (\<lambda>(name, s). bundle_depth name)") (auto dest: dependency_depth)

declare pm_loadBundle.simps [simp del]

text \<open>The promise of a call of \<open>_loadBundle\<close> settles.\<close>

definition settle :: "nat \<Rightarrow> bool \<Rightarrow> PackageManager \<Rightarrow> PackageManager" where
  "settle p ok s =
     (if p < length (loadPromises s) \<and> snd (loadPromises s ! p) = Pending
      then s\<lparr>loadPromises := (loadPromises s)[p := (fst (loadPromises s ! p), if ok then Fulfilled else Failed)]\<rparr>
      else s)"

text \<open>
  A call of \<open>loadBundle\<close> goes on once its promise is settled: after \<open>await loadPromise\<close>
  the bundle is added to \<open>loadedBundles\<close> and \<open>onBundleLoad\<close> is called, and in the
  \<open>finally\<close> block, on success and on failure, the entry of \<open>loadingBundles\<close> is deleted.
\<close>

definition pm_resume :: "nat \<Rightarrow> PackageManager \<Rightarrow> PackageManager" where
  "pm_resume i s =
     (if i < length (loadCalls s) then
        (case loadCalls s ! i of
           Awaiting name p \<Rightarrow>
             (case snd (loadPromises s ! p) of
                Pending \<Rightarrow> s
              | Fulfilled \<Rightarrow>
                  s\<lparr> pm_loadedBundles := set_add name (pm_loadedBundles s),
                      onBundleLoad := onBundleLoad s @ [name],
                      loadingBundles := (loadingBundles s)(name := None),
                      loadCalls := (loadCalls s)[i := Returned] \<rparr>
              | Failed \<Rightarrow>
                  s\<lparr> loadingBundles := (loadingBundles s)(name := None),
                      loadCalls := (loadCalls s)[i := Threw] \<rparr>)
         | Joined p \<Rightarrow>
             (case snd (loadPromises s ! p) of
                Pending \<Rightarrow> s
              | Fulfilled \<Rightarrow> s\<lparr>loadCalls := (loadCalls s)[i := Returned]\<rparr>
              | Failed \<Rightarrow> s\<lparr>loadCalls := (loadCalls s)[i := Threw]\<rparr>)
         | _ \<Rightarrow> s)
      else s)"

text \<open>
  In \<open>PackageManager.loadBundle\<close> the second caller joins: while the bundle is loading,
  a call starts no \<open>_loadBundle\<close> and returns the registered promise; a call for a bundle
  that is neither loaded nor loading registers its promise; and the call that registered it
  deletes the entry when the promise has settled, fulfilled or failed.
\<close>

lemma pm_loadBundle_dedup:
  "(name \<notin> set (pm_loadedBundles s) \<and> loadingBundles s name = Some p \<longrightarrow>
      pm_loadBundle name s = s\<lparr>loadCalls := loadCalls s @ [Joined p]\<rparr>) \<and>
   (name \<notin> set (pm_loadedBundles s) \<and> loadingBundles s name = None \<longrightarrow>
      (\<exists>q. loadingBundles (pm_loadBundle name s) name = Some q \<and>
           loadPromises (pm_loadBundle name s) ! q = (name, Pending) \<and>
           last (loadCalls (pm_loadBundle name s)) = Awaiting name q)) \<and>
   (i < length (loadCalls s) \<and> loadCalls s ! i = Awaiting name p \<and>
      snd (loadPromises s ! p) \<noteq> Pending \<longrightarrow>
      loadingBundles (pm_resume i s) name = None)"
  by (auto simp: pm_loadBundle.simps [of name s] Let_def pm_resume_def split: promise_state.splits)

definition pm_cold :: PackageManager where
  "pm_cold = \<lparr> pm_loadedBundles = [], loadingBundles = Map.empty, loadPromises = [],
     loadCalls = [], onBundleLoad = [] \<rparr>"

lemma pm_loadBundle_twice:
  "loadPromises (pm_loadBundle ''math'' (pm_loadBundle ''math'' pm_cold))
     = [(''core'', Pending), (''math'', Pending)] \<and>
   loadCalls (pm_loadBundle ''math'' (pm_loadBundle ''math'' pm_cold))
     = [Awaiting ''core'' 0, Awaiting ''math'' 1, Joined 1]"
  by (simp add: pm_loadBundle.simps pm_cold_def dependenciesOf_def BUNDLE_DEPENDENCIES_def Let_def)

end
